theory Spec2Isabelle
  imports Main "HOL-Library.Word"
begin

section \<open>The static allocator of GLUS (glus_memory_no_dm.c)\<close>

text \<open>
  The allocator manages the static array \<open>g_memory\<close> of \<open>uint32_t\<close> through the static
  table \<open>g_memoryTable\<close> and the counter \<open>g_memoryTableEntries\<close>.  The three globals are
  the fields of the record \<open>state\<close>; every C function that touches them takes the state
  and returns the new one.

  \<^item> \<open>size_t\<close> and \<open>void*\<close> are 64-bit words (an LP64 platform); \<open>+\<close>, \<open>-\<close>, \<open>*\<close> wrap
    as the C operators on \<open>size_t\<close> do.
  \<^item> Table indices (\<open>GLUSuint\<close> and \<open>size_t\<close> in the source) are natural numbers: every
    loop bounds them by \<open>GLUS_MEMORY_TABLE_ENTRIES\<close>, so they never wrap.
  \<^item> \<open>GLUSboolean\<close> flags only ever hold \<open>GLUS_TRUE\<close> or \<open>GLUS_FALSE\<close>: they are \<open>bool\<close>.
    (The header \<open>GL/glus.h\<close> with the typedefs is not part of the file; \<open>GLUSuint\<close> is
    read as \<open>unsigned int\<close>.)
  \<^item> The field \<open>length\<close> of \<open>GLUSmemoryTable\<close> is \<open>length_e\<close> and the parameter \<open>size\<close> is
    \<open>sz\<close> here, since \<open>length\<close> and \<open>size\<close> are constants of HOL.
  \<^item> The arrays are total functions of the index.  Every table access of the source
    is guarded by \<open>index < GLUS_MEMORY_TABLE_ENTRIES\<close>; the one read of \<open>g_memory\<close> is
    not guarded, and the model returns \<open>Inl OutOfBoundsRead\<close> where the C program
    would read outside the array.
\<close>

type_synonym size_t = "64 word"
type_synonym ptr = "64 word"
type_synonym uint32_t = "32 word"

definition GLUS_MEMORY_SIZE :: nat where
  "GLUS_MEMORY_SIZE = 16 * 1024 * 1024 div 4"

definition GLUS_MEMORY_TABLE_ENTRIES :: nat where
  "GLUS_MEMORY_TABLE_ENTRIES = 1024"

record GLUSmemoryTable =
  valid :: bool
  free :: bool
  startIndex :: size_t
  length_e :: size_t
  pointer :: ptr

record state =
  g_memory :: "nat \<Rightarrow> uint32_t"
  g_memoryTable :: "nat \<Rightarrow> GLUSmemoryTable"
  g_memoryTableEntries :: nat

datatype error = OutOfBoundsRead

text \<open>
  The static initialisers: \<open>g_memory\<close> is zero, entry 0 of the table is
  \<open>{GLUS_TRUE, GLUS_TRUE, 0, GLUS_MEMORY_SIZE, (void*)g_memory}\<close>, the other entries are
  zero, and \<open>g_memoryTableEntries\<close> is 1.  The address of the array \<open>g_memory\<close> is the
  parameter \<open>base\<close>.
\<close>

definition zero_entry :: GLUSmemoryTable where
  "zero_entry = \<lparr>valid = False, free = False, startIndex = 0, length_e = 0, pointer = 0\<rparr>"

definition initial_state :: "ptr \<Rightarrow> state" where
  "initial_state base =
     \<lparr>g_memory = (\<lambda>_. 0),
      g_memoryTable = (\<lambda>i. if i = 0
         then \<lparr>valid = True, free = True, startIndex = 0,
               length_e = of_nat GLUS_MEMORY_SIZE, pointer = base\<rparr>
         else zero_entry),
      g_memoryTableEntries = 1\<rparr>"

subsection \<open>glusFindMemoryTableEntry\<close>

text \<open>
  The loop of \<open>glusFindMemoryTableEntry\<close>, from \<open>tableIndex\<close> on; \<open>None\<close> is \<open>GLUS_FALSE\<close>,
  \<open>Some i\<close> is \<open>GLUS_TRUE\<close> with \<open>*foundTableIndex = i\<close>.  The function is static and its
  one caller passes the address of a local variable, so the test \<open>!foundTableIndex\<close> at
  its head never succeeds.
\<close>

function find_loop :: "state \<Rightarrow> nat \<Rightarrow> nat option" where
  "find_loop s tableIndex =
     (if tableIndex < g_memoryTableEntries s \<and> tableIndex < GLUS_MEMORY_TABLE_ENTRIES
      then (if \<not> valid (g_memoryTable s tableIndex) then Some tableIndex
            else find_loop s (tableIndex + 1))
      else None)"
  by pat_completeness auto
termination
  by (relation "measure (\<lambda>(s, i). GLUS_MEMORY_TABLE_ENTRIES - i)") auto

declare find_loop.simps [simp del]

definition glusFindMemoryTableEntry :: "state \<Rightarrow> nat option" where
  "glusFindMemoryTableEntry s = find_loop s 0"

subsection \<open>glusInitMemoryTableEntry\<close>

definition glusInitMemoryTableEntry ::
  "nat \<Rightarrow> size_t \<Rightarrow> size_t \<Rightarrow> state \<Rightarrow> error + (bool \<times> state)" where
  "glusInitMemoryTableEntry tableIndex startIdx len s =
     (if tableIndex \<ge> GLUS_MEMORY_TABLE_ENTRIES then Inr (False, s)
      else if unat startIdx \<ge> GLUS_MEMORY_SIZE then Inl OutOfBoundsRead
      else Inr (True,
        s\<lparr>g_memoryTable := (g_memoryTable s)(tableIndex :=
             \<lparr>valid = True, free = True, startIndex = startIdx, length_e = len,
              pointer = ucast (g_memory s (unat startIdx))\<rparr>),
          g_memoryTableEntries :=
            (if tableIndex = g_memoryTableEntries s then g_memoryTableEntries s + 1
             else g_memoryTableEntries s)\<rparr>))"

subsection \<open>glusGarbageCollect\<close>

text \<open>
  The body of the adjacency test's branch: \<open>g_memoryTable[tableIndex].length +=
  g_memoryTable[otherTableIndex].length; g_memoryTable[otherTableIndex].valid = GLUS_FALSE\<close>.
\<close>

definition gc_merge :: "nat \<Rightarrow> nat \<Rightarrow> state \<Rightarrow> state" where
  "gc_merge tableIndex otherTableIndex s =
     (let t1 = (g_memoryTable s)(tableIndex := (g_memoryTable s tableIndex)
                  \<lparr>length_e := length_e (g_memoryTable s tableIndex)
                                + length_e (g_memoryTable s otherTableIndex)\<rparr>);
          t2 = t1(otherTableIndex := (t1 otherTableIndex)\<lparr>valid := False\<rparr>)
      in s\<lparr>g_memoryTable := t2\<rparr>)"

text \<open>
  The innermost loop, over \<open>otherTableIndex\<close>, for a fixed \<open>tableIndex\<close>.  The flag
  \<open>continueGC\<close> is threaded with the state.
\<close>

function gc_inner :: "nat \<Rightarrow> nat \<Rightarrow> state \<Rightarrow> bool \<Rightarrow> state \<times> bool" where
  "gc_inner tableIndex otherTableIndex s continueGC =
     (if otherTableIndex < g_memoryTableEntries s \<and> otherTableIndex < GLUS_MEMORY_TABLE_ENTRIES
      then
        (if otherTableIndex = tableIndex
         then gc_inner tableIndex (otherTableIndex + 1) s continueGC
         else if valid (g_memoryTable s otherTableIndex) \<and> free (g_memoryTable s otherTableIndex)
                 \<and> startIndex (g_memoryTable s tableIndex)
                     + length_e (g_memoryTable s tableIndex) div 4
                   = startIndex (g_memoryTable s otherTableIndex)
         then gc_inner tableIndex (otherTableIndex + 1)
                (gc_merge tableIndex otherTableIndex s) True
         else gc_inner tableIndex (otherTableIndex + 1) s continueGC)
      else (s, continueGC))"
  by pat_completeness auto
termination
  by (relation "measure (\<lambda>(i, j, s, c). GLUS_MEMORY_TABLE_ENTRIES - j)") auto

declare gc_inner.simps [simp del]

text \<open>The loop over \<open>tableIndex\<close>: one full pass over the table.\<close>

function gc_outer :: "nat \<Rightarrow> state \<Rightarrow> bool \<Rightarrow> state \<times> bool" where
  "gc_outer tableIndex s continueGC =
     (if tableIndex < g_memoryTableEntries s \<and> tableIndex < GLUS_MEMORY_TABLE_ENTRIES
      then
        (if valid (g_memoryTable s tableIndex) \<and> free (g_memoryTable s tableIndex)
         then (case gc_inner tableIndex 0 s continueGC of
                 (s', continueGC') \<Rightarrow> gc_outer (tableIndex + 1) s' continueGC')
         else gc_outer (tableIndex + 1) s continueGC)
      else (s, continueGC))"
  by pat_completeness auto
termination
  by (relation "measure (\<lambda>(i, s, c). GLUS_MEMORY_TABLE_ENTRIES - i)") auto

declare gc_outer.simps [simp del]


text \<open>
  The outer \<open>while (continueGC)\<close> loop runs a pass, and another one as long as the last
  pass merged something.  Each merge invalidates one valid entry among the activated
  slots, so the number of such entries is the measure of its termination.
\<close>

definition valid_set :: "state \<Rightarrow> nat set" where
  "valid_set s = {i. i < g_memoryTableEntries s \<and> i < GLUS_MEMORY_TABLE_ENTRIES
                     \<and> valid (g_memoryTable s i)}"

lemma finite_valid_set: "finite (valid_set s)"
  by (simp add: valid_set_def)

lemma gc_merge_entries: "g_memoryTableEntries (gc_merge i j s) = g_memoryTableEntries s"
  by (simp add: gc_merge_def Let_def)

lemma gc_merge_memory: "g_memory (gc_merge i j s) = g_memory s"
  by (simp add: gc_merge_def Let_def)

lemma valid_set_gc_merge:
  "j \<noteq> i \<Longrightarrow> valid_set (gc_merge i j s) = valid_set s - {j}"
  by (auto simp: valid_set_def gc_merge_def Let_def)

lemma gc_inner_entries:
  "g_memoryTableEntries (fst (gc_inner i j s c)) = g_memoryTableEntries s"
proof (induction i j s c rule: gc_inner.induct)
  case (1 i j s c)
  show ?case
    using "1.IH" by (subst gc_inner.simps) (simp add: gc_merge_entries)
qed

lemma gc_inner_valid_set:
  "gc_inner i j s c = (s', c') \<Longrightarrow>
     valid_set s' \<subseteq> valid_set s \<and> (c \<longrightarrow> c') \<and> (\<not> c \<and> c' \<longrightarrow> valid_set s' \<subset> valid_set s)"
proof (induction i j s c arbitrary: s' c' rule: gc_inner.induct)
  case (1 i j s c)
  show ?case
  proof (cases "j < g_memoryTableEntries s \<and> j < GLUS_MEMORY_TABLE_ENTRIES")
    case False
    with "1.prems" show ?thesis by (subst (asm) gc_inner.simps) auto
  next
    case inb: True
    show ?thesis
    proof (cases "j = i")
      case True
      with inb "1.prems" have "gc_inner i (j + 1) s c = (s', c')"
        by (subst (asm) gc_inner.simps) simp
      from "1.IH"(1)[OF inb True this] show ?thesis .
    next
      case ne: False
      show ?thesis
      proof (cases "valid (g_memoryTable s j) \<and> free (g_memoryTable s j)
                 \<and> startIndex (g_memoryTable s i) + length_e (g_memoryTable s i) div 4
                   = startIndex (g_memoryTable s j)")
        case True
        with inb ne "1.prems" have "gc_inner i (j + 1) (gc_merge i j s) True = (s', c')"
          by (subst (asm) gc_inner.simps) simp
        from "1.IH"(2)[OF inb ne True this]
        have *: "valid_set s' \<subseteq> valid_set (gc_merge i j s)" "c'" by auto
        have "j \<in> valid_set s" using inb True by (simp add: valid_set_def)
        then have "valid_set (gc_merge i j s) \<subset> valid_set s"
          using ne by (auto simp: valid_set_gc_merge)
        with * show ?thesis by auto
      next
        case False
        with inb ne "1.prems" have "gc_inner i (j + 1) s c = (s', c')"
          by (subst (asm) gc_inner.simps) auto
        from "1.IH"(3)[OF inb ne False this] show ?thesis .
      qed
    qed
  qed
qed

lemma gc_outer_valid_set:
  "gc_outer i s c = (s', c') \<Longrightarrow>
     valid_set s' \<subseteq> valid_set s \<and> (c \<longrightarrow> c') \<and> (\<not> c \<and> c' \<longrightarrow> valid_set s' \<subset> valid_set s)"
proof (induction i s c arbitrary: s' c' rule: gc_outer.induct)
  case (1 i s c)
  show ?case
  proof (cases "i < g_memoryTableEntries s \<and> i < GLUS_MEMORY_TABLE_ENTRIES")
    case False
    with "1.prems" show ?thesis by (subst (asm) gc_outer.simps) auto
  next
    case inb: True
    show ?thesis
    proof (cases "valid (g_memoryTable s i) \<and> free (g_memoryTable s i)")
      case True
      obtain s1 c1 where in1: "gc_inner i 0 s c = (s1, c1)" by (cases "gc_inner i 0 s c")
      with inb True "1.prems" have "gc_outer (i + 1) s1 c1 = (s', c')"
        by (subst (asm) gc_outer.simps) simp
      from "1.IH"(1)[OF inb True in1[symmetric] this] gc_inner_valid_set[OF in1]
      show ?thesis by auto
    next
      case False
      with inb "1.prems" have "gc_outer (i + 1) s c = (s', c')"
        by (subst (asm) gc_outer.simps) auto
      from "1.IH"(2)[OF inb False this] show ?thesis .
    qed
  qed
qed

function glusGarbageCollect :: "state \<Rightarrow> state" where
  "glusGarbageCollect s =
     (case gc_outer 0 s False of
        (s', continueGC) \<Rightarrow> if continueGC then glusGarbageCollect s' else s')"
  by pat_completeness auto
termination
  by (relation "measure (\<lambda>s. card (valid_set s))")
     (auto simp: finite_valid_set intro!: psubset_card_mono dest: gc_outer_valid_set[OF sym])

declare glusGarbageCollect.simps [simp del]

subsection \<open>glusInternalMalloc\<close>

text \<open>\<open>size % 4 == 0 ? size : (size / 4 + 1) * 4\<close>, in \<open>size_t\<close> arithmetic.\<close>

definition align4 :: "size_t \<Rightarrow> size_t" where
  "align4 sz = (if sz mod 4 = 0 then sz else (sz div 4 + 1) * 4)"

text \<open>
  The body of the \<open>if\<close> inside the search loop: the entry \<open>tableIndex\<close> fits and is
  granted.  The remainder goes to a reusable entry, or else to entry \<open>tableIndex + 1\<close>.
\<close>

definition grant :: "size_t \<Rightarrow> nat \<Rightarrow> state \<Rightarrow> error + (ptr \<times> state)" where
  "grant allocatedLength tableIndex s =
     (let otherTableIndex =
            (case glusFindMemoryTableEntry s of Some i \<Rightarrow> i | None \<Rightarrow> tableIndex + 1)
      in case glusInitMemoryTableEntry otherTableIndex
                (startIndex (g_memoryTable s tableIndex) + allocatedLength div 4)
                (length_e (g_memoryTable s tableIndex) - allocatedLength) s of
           Inl e \<Rightarrow> Inl e
         | Inr (ok, s1) \<Rightarrow>
             (let allocatedLength' =
                    (if ok then allocatedLength else length_e (g_memoryTable s1 tableIndex));
                  s2 = s1\<lparr>g_memoryTable := (g_memoryTable s1)(tableIndex :=
                          (g_memoryTable s1 tableIndex)
                             \<lparr>free := False, length_e := allocatedLength'\<rparr>)\<rparr>
              in Inr (pointer (g_memoryTable s2 tableIndex), s2)))"

function malloc_loop :: "size_t \<Rightarrow> size_t \<Rightarrow> nat \<Rightarrow> state \<Rightarrow> error + (ptr \<times> state)" where
  "malloc_loop sz allocatedLength tableIndex s =
     (if tableIndex < g_memoryTableEntries s \<and> tableIndex < GLUS_MEMORY_TABLE_ENTRIES
      then
        (if valid (g_memoryTable s tableIndex) \<and> free (g_memoryTable s tableIndex)
            \<and> length_e (g_memoryTable s tableIndex) \<ge> sz
         then grant allocatedLength tableIndex s
         else malloc_loop sz allocatedLength (tableIndex + 1) s)
      else Inr (0, s))"
  by pat_completeness auto
termination
  by (relation "measure (\<lambda>(sz, a, i, s). GLUS_MEMORY_TABLE_ENTRIES - i)") auto

declare malloc_loop.simps [simp del]

definition glusInternalMalloc :: "size_t \<Rightarrow> state \<Rightarrow> error + (ptr \<times> state)" where
  "glusInternalMalloc sz s =
     (let allocatedLength = align4 sz
      in if allocatedLength < sz then Inr (0, s)
         else malloc_loop sz allocatedLength 0 s)"

subsection \<open>glusMalloc and glusFree\<close>

definition glusMalloc :: "size_t \<Rightarrow> state \<Rightarrow> error + (ptr \<times> state)" where
  "glusMalloc sz s =
     (if sz = 0 then Inr (0, s)
      else case glusInternalMalloc sz s of
             Inl e \<Rightarrow> Inl e
           | Inr (pointer1, s1) \<Rightarrow>
               if pointer1 = 0 then glusInternalMalloc sz (glusGarbageCollect s1)
               else Inr (pointer1, s1))"

function free_loop :: "ptr \<Rightarrow> nat \<Rightarrow> state \<Rightarrow> state" where
  "free_loop p tableIndex s =
     (if tableIndex < g_memoryTableEntries s \<and> tableIndex < GLUS_MEMORY_TABLE_ENTRIES
      then
        (if pointer (g_memoryTable s tableIndex) = p
         then s\<lparr>g_memoryTable := (g_memoryTable s)(tableIndex :=
                   (g_memoryTable s tableIndex)\<lparr>free := True\<rparr>)\<rparr>
         else free_loop p (tableIndex + 1) s)
      else s)"
  by pat_completeness auto
termination
  by (relation "measure (\<lambda>(p, i, s). GLUS_MEMORY_TABLE_ENTRIES - i)") auto

declare free_loop.simps [simp del]

definition glusFree :: "ptr \<Rightarrow> state \<Rightarrow> state" where
  "glusFree p s = (if p = 0 then s else free_loop p 0 s)"

section \<open>The claims\<close>

text \<open>
  C8: \<open>malloc(0)\<close> returns null and changes nothing: the returned state is the state
  it was called in (every table entry, \<open>g_memoryTableEntries\<close> and the arena), and the
  result is the same null pointer that a failed allocation returns.
\<close>

theorem C8_malloc_zero: "glusMalloc 0 s = Inr (0, s)"
  by (simp add: glusMalloc_def)

text \<open>The equations that evaluate the operations on a concrete state.\<close>

lemmas eval_simps = glusMalloc_def glusInternalMalloc_def align4_def malloc_loop.simps grant_def
  glusFindMemoryTableEntry_def find_loop.simps glusInitMemoryTableEntry_def initial_state_def
  GLUS_MEMORY_SIZE_def GLUS_MEMORY_TABLE_ENTRIES_def zero_entry_def glusFree_def free_loop.simps
  glusGarbageCollect.simps gc_outer.simps gc_inner.simps gc_merge_def Let_def

subsection \<open>The arena is never written\<close>

lemma gc_inner_memory: "g_memory (fst (gc_inner i j s c)) = g_memory s"
proof (induction i j s c rule: gc_inner.induct)
  case (1 i j s c)
  show ?case
    using "1.IH" by (subst gc_inner.simps) (simp add: gc_merge_memory)
qed

lemma gc_outer_memory: "g_memory (fst (gc_outer i s c)) = g_memory s"
proof (induction i s c rule: gc_outer.induct)
  case (1 i s c)
  show ?case
  proof (cases "i < g_memoryTableEntries s \<and> i < GLUS_MEMORY_TABLE_ENTRIES")
    case False
    then show ?thesis by (subst gc_outer.simps) auto
  next
    case inb: True
    show ?thesis
    proof (cases "valid (g_memoryTable s i) \<and> free (g_memoryTable s i)")
      case True
      obtain s1 c1 where in1: "gc_inner i 0 s c = (s1, c1)" by (cases "gc_inner i 0 s c")
      have "g_memory s1 = g_memory s" using gc_inner_memory[of i 0 s c] in1 by simp
      with "1.IH"(1)[OF inb True in1[symmetric]] inb True in1 show ?thesis
        by (subst gc_outer.simps) simp
    next
      case False
      with "1.IH"(2)[OF inb False] inb show ?thesis
        by (subst gc_outer.simps) auto
    qed
  qed
qed

lemma glusGarbageCollect_memory: "g_memory (glusGarbageCollect s) = g_memory s"
proof (induction s rule: glusGarbageCollect.induct)
  case (1 s)
  obtain s1 c1 where p: "gc_outer 0 s False = (s1, c1)" by (cases "gc_outer 0 s False")
  have m: "g_memory s1 = g_memory s" using gc_outer_memory[of 0 s False] p by simp
  show ?case
  proof (cases c1)
    case True
    with "1.IH"[OF p[symmetric]] p m show ?thesis
      by (subst glusGarbageCollect.simps) simp
  next
    case False
    with p m show ?thesis by (subst glusGarbageCollect.simps) simp
  qed
qed

lemma glusInitMemoryTableEntry_memory:
  "glusInitMemoryTableEntry k st len s = Inr (ok, s') \<Longrightarrow> g_memory s' = g_memory s"
  by (auto simp: glusInitMemoryTableEntry_def split: if_splits)

lemma grant_memory: "grant a k s = Inr (p, s') \<Longrightarrow> g_memory s' = g_memory s"
  by (auto simp: grant_def Let_def split: sum.splits prod.splits
           dest: glusInitMemoryTableEntry_memory)

lemma malloc_loop_memory:
  "malloc_loop sz a k s = Inr (p, s') \<Longrightarrow> g_memory s' = g_memory s"
proof (induction sz a k s rule: malloc_loop.induct)
  case (1 sz a k s)
  show ?case
  proof (cases "k < g_memoryTableEntries s \<and> k < GLUS_MEMORY_TABLE_ENTRIES")
    case False
    with "1.prems" show ?thesis by (subst (asm) malloc_loop.simps) auto
  next
    case inb: True
    show ?thesis
    proof (cases "valid (g_memoryTable s k) \<and> free (g_memoryTable s k)
                   \<and> length_e (g_memoryTable s k) \<ge> sz")
      case True
      with inb "1.prems" have "grant a k s = Inr (p, s')"
        by (subst (asm) malloc_loop.simps) simp
      then show ?thesis by (rule grant_memory)
    next
      case False
      with inb "1.prems" have "malloc_loop sz a (k + 1) s = Inr (p, s')"
        by (subst (asm) malloc_loop.simps) auto
      from "1.IH"[OF inb False this] show ?thesis .
    qed
  qed
qed

lemma glusInternalMalloc_memory:
  "glusInternalMalloc sz s = Inr (p, s') \<Longrightarrow> g_memory s' = g_memory s"
  by (auto simp: glusInternalMalloc_def Let_def split: if_splits dest: malloc_loop_memory)

lemma glusMalloc_memory:
  "glusMalloc sz s = Inr (p, s') \<Longrightarrow> g_memory s' = g_memory s"
  by (auto simp: glusMalloc_def glusGarbageCollect_memory split: if_splits sum.splits prod.splits
           dest!: glusInternalMalloc_memory)

lemma free_loop_memory: "g_memory (free_loop p k s) = g_memory s"
proof (induction p k s rule: free_loop.induct)
  case (1 p k s)
  show ?case using "1.IH" by (subst free_loop.simps) simp
qed

lemma glusFree_memory: "g_memory (glusFree p s) = g_memory s"
  by (simp add: glusFree_def free_loop_memory)

text \<open>
  C10: no operation writes to the arena.  \<open>glusMalloc\<close> (with the \<open>glusInternalMalloc\<close>
  calls and the \<open>glusGarbageCollect\<close> pass inside it) and \<open>glusFree\<close> return a state whose
  \<open>g_memory\<close> is the \<open>g_memory\<close> they were called with; only \<open>g_memoryTable\<close> and
  \<open>g_memoryTableEntries\<close> can differ.
\<close>

theorem C10_arena_unchanged:
  "(glusMalloc sz s = Inr (p, s') \<longrightarrow> g_memory s' = g_memory s)
   \<and> (glusInternalMalloc sz s = Inr (p, s') \<longrightarrow> g_memory s' = g_memory s)
   \<and> g_memory (glusGarbageCollect s) = g_memory s
   \<and> g_memory (glusFree q s) = g_memory s"
  using glusMalloc_memory glusInternalMalloc_memory glusGarbageCollect_memory glusFree_memory
  by blast

theorem C10_arena_unchanged_witness:
  "\<exists>s'. glusMalloc 4 (initial_state 4096) = Inr (4096, s')
     \<and> glusInternalMalloc 4 (initial_state 4096) = Inr (4096, s')
     \<and> g_memory s' = g_memory (initial_state 4096)"
proof -
  obtain s' where m: "glusMalloc 4 (initial_state 4096) = Inr (4096, s')"
    and i: "glusInternalMalloc 4 (initial_state 4096) = Inr (4096, s')"
    by (simp add: eval_simps)
  from C10_arena_unchanged[of 4 "initial_state 4096" 4096 s'] m i show ?thesis by simp
qed

subsection \<open>Arithmetic of \<open>size_t\<close>\<close>

lemma unat_size_t_less: "unat (x :: size_t) < 18446744073709551616"
  using unsigned_less[of x, where 'a = nat] by simp

lemma unat_mod4: "unat (x mod 4 :: size_t) = unat x mod 4"
  by (simp add: unat_mod)

lemma mod4_zero_iff: "(x mod 4 = (0 :: size_t)) = (unat x mod 4 = 0)"
  by (simp add: word_unat_eq_iff unat_mod)

lemma unat_div4: "unat (x div 4 :: size_t) = unat x div 4"
  by (simp add: unat_div)

lemma unat_succ_times4:
  fixes x :: size_t
  assumes "unat x * 4 + 4 < 18446744073709551616"
  shows "unat ((x + 1) * 4) = (unat x + 1) * 4"
proof -
  have a: "unat (x + 1) = unat x + unat (1 :: size_t)"
    by (rule unat_add_lem[THEN iffD1]) (use assms in simp)
  have b: "unat ((x + 1) * 4) = unat (x + 1) * unat (4 :: size_t)"
    by (rule unat_mult_lem[THEN iffD1]) (use assms a in simp)
  show ?thesis using a b by simp
qed

text \<open>The rounding of \<open>glusInternalMalloc\<close>, as a function of the natural number.\<close>

definition roundedSize :: "nat \<Rightarrow> nat" where
  "roundedSize n = (n + 3) div 4 * 4"

lemma align4_exact:
  fixes sz :: size_t
  assumes "roundedSize (unat sz) < 18446744073709551616"
  shows "unat (align4 sz) = roundedSize (unat sz)"
proof (cases "sz mod 4 = 0")
  case True
  then have "unat sz mod 4 = 0" by (simp add: mod4_zero_iff)
  then have "roundedSize (unat sz) = unat sz" unfolding roundedSize_def by presburger
  with True show ?thesis by (simp add: align4_def)
next
  case False
  then have r: "unat sz mod 4 \<noteq> 0" by (simp add: mod4_zero_iff)
  then have e: "roundedSize (unat sz) = (unat sz div 4 + 1) * 4"
    unfolding roundedSize_def by presburger
  have "unat (sz div 4) * 4 + 4 < 18446744073709551616"
    using assms e by (simp add: unat_div4)
  from unat_succ_times4[OF this] have "unat ((sz div 4 + 1) * 4) = (unat sz div 4 + 1) * 4"
    by (simp only: unat_div4)
  with False e show ?thesis by (simp only: align4_def if_False)
qed

lemma align4_wraps:
  fixes sz :: size_t
  assumes "align4 sz < sz"
  shows "18446744073709551616 \<le> roundedSize (unat sz)"
proof (rule ccontr)
  assume "\<not> ?thesis"
  then have "unat (align4 sz) = roundedSize (unat sz)" by (simp add: align4_exact)
  moreover have "unat sz \<le> roundedSize (unat sz)" unfolding roundedSize_def by presburger
  ultimately show False using assms by (simp add: word_less_nat_alt)
qed

lemma roundedSize_le:
  assumes "n \<le> L" "L mod 4 = 0"
  shows "roundedSize n \<le> L"
  using assms unfolding roundedSize_def by presburger

lemma roundedSize_ge: "n \<le> roundedSize n"
  unfolding roundedSize_def by presburger

lemma roundedSize_mod4: "roundedSize n mod 4 = 0"
  unfolding roundedSize_def by simp

subsection \<open>The invariant of the table\<close>

text \<open>
  The words an entry governs: \<open>startIndex\<close> counts words of the arena, \<open>length\<close> counts
  bytes (the source adds \<open>length / 4\<close> to \<open>startIndex\<close>).
\<close>

definition blk_range :: "GLUSmemoryTable \<Rightarrow> nat set" where
  "blk_range e = {unat (startIndex e) ..< unat (startIndex e) + unat (length_e e) div 4}"

definition entry_ok :: "GLUSmemoryTable \<Rightarrow> bool" where
  "entry_ok e \<longleftrightarrow> unat (length_e e) mod 4 = 0
     \<and> unat (startIndex e) + unat (length_e e) div 4 \<le> GLUS_MEMORY_SIZE div 4"

definition table_inv :: "state \<Rightarrow> bool" where
  "table_inv s \<longleftrightarrow>
     g_memoryTableEntries s \<le> GLUS_MEMORY_TABLE_ENTRIES
     \<and> (\<forall>i < g_memoryTableEntries s. valid (g_memoryTable s i) \<longrightarrow> entry_ok (g_memoryTable s i))
     \<and> (\<forall>i < g_memoryTableEntries s. \<not> valid (g_memoryTable s i) \<longrightarrow> free (g_memoryTable s i))
     \<and> (\<forall>i < g_memoryTableEntries s. \<forall>j < g_memoryTableEntries s.
           i \<noteq> j \<longrightarrow> valid (g_memoryTable s i) \<longrightarrow> valid (g_memoryTable s j) \<longrightarrow>
           blk_range (g_memoryTable s i) \<inter> blk_range (g_memoryTable s j) = {})"

lemma table_inv_initial: "table_inv (initial_state base)"
  by (simp add: table_inv_def initial_state_def entry_ok_def GLUS_MEMORY_SIZE_def
        GLUS_MEMORY_TABLE_ENTRIES_def)

lemma table_inv_store: "table_inv s \<Longrightarrow> table_inv (s\<lparr>g_memory := m\<rparr>)"
  by (simp add: table_inv_def)

lemma blk_range_flags [simp]:
  "blk_range (e\<lparr>free := b\<rparr>) = blk_range e" "blk_range (e\<lparr>valid := b\<rparr>) = blk_range e"
  by (simp_all add: blk_range_def)

lemma entry_ok_flags [simp]:
  "entry_ok (e\<lparr>free := b\<rparr>) = entry_ok e" "entry_ok (e\<lparr>valid := b\<rparr>) = entry_ok e"
  by (simp_all add: entry_ok_def)

lemma table_inv_flag:
  assumes "table_inv s" "valid (g_memoryTable s k) \<or> b"
  shows "table_inv (s\<lparr>g_memoryTable := (g_memoryTable s)(k := (g_memoryTable s k)\<lparr>free := b\<rparr>)\<rparr>)"
  using assms unfolding table_inv_def by auto

lemma table_inv_split:
  assumes inv: "table_inv s"
    and k: "k < g_memoryTableEntries s" "valid (g_memoryTable s k)"
    and o: "other \<noteq> k" "other \<le> g_memoryTableEntries s" "other < GLUS_MEMORY_TABLE_ENTRIES"
    and ek: "valid ek" "entry_ok ek" "blk_range ek \<subseteq> blk_range (g_memoryTable s k)"
    and eo: "valid eo" "entry_ok eo" "blk_range eo \<subseteq> blk_range (g_memoryTable s k)"
    and dj: "blk_range ek \<inter> blk_range eo = {}"
  shows "table_inv (s\<lparr>g_memoryTable := (g_memoryTable s)(other := eo, k := ek),
                      g_memoryTableEntries := (if other = g_memoryTableEntries s
                         then g_memoryTableEntries s + 1 else g_memoryTableEntries s)\<rparr>)"
proof -
  let ?n = "g_memoryTableEntries s"
  let ?t = "g_memoryTable s"
  let ?n' = "if other = ?n then ?n + 1 else ?n"
  let ?t' = "?t(other := eo, k := ek)"
  have old: "i < ?n" if "i < ?n'" "i \<noteq> other" for i using that by (auto split: if_splits)
  have n': "?n' \<le> GLUS_MEMORY_TABLE_ENTRIES"
    using inv o by (auto simp: table_inv_def)
  have ok: "entry_ok (?t' i)" if "i < ?n'" "valid (?t' i)" for i
    using that old[of i] inv ek eo by (auto simp: table_inv_def split: if_splits)
  have fr: "free (?t' i)" if "i < ?n'" "\<not> valid (?t' i)" for i
    using that old[of i] inv ek eo by (auto simp: table_inv_def split: if_splits)
  have sub: "blk_range (?t' i) \<subseteq> blk_range (?t k)" if "i = k \<or> i = other" for i
    using that ek eo o by auto
  have keep: "?t' i = ?t i" if "i \<noteq> k" "i \<noteq> other" for i using that by simp
  have offk: "blk_range (?t i) \<inter> blk_range (?t k) = {}"
    if "i < ?n" "i \<noteq> k" "valid (?t i)" for i
    using that inv k unfolding table_inv_def by blast
  have dis: "blk_range (?t' i) \<inter> blk_range (?t' j) = {}"
    if ij: "i < ?n'" "j < ?n'" "i \<noteq> j" "valid (?t' i)" "valid (?t' j)" for i j
  proof -
    consider "i = k \<or> i = other" "j = k \<or> j = other"
      | "i = k \<or> i = other" "j \<noteq> k" "j \<noteq> other"
      | "i \<noteq> k" "i \<noteq> other" "j = k \<or> j = other"
      | "i \<noteq> k" "i \<noteq> other" "j \<noteq> k" "j \<noteq> other" by blast
    then show ?thesis
    proof cases
      case 1
      with ij o dj show ?thesis by auto
    next
      case 2
      with ij keep[of j] old[of j] have "j < ?n" "valid (?t j)" "?t' j = ?t j" by auto
      with offk[of j] sub[OF 2(1)] 2 show ?thesis by auto
    next
      case 3
      with ij keep[of i] old[of i] have "i < ?n" "valid (?t i)" "?t' i = ?t i" by auto
      with offk[of i] sub[OF 3(3)] 3 show ?thesis by auto
    next
      case 4
      with ij keep[of i] keep[of j] old[of i] old[of j]
      have "i < ?n" "j < ?n" "valid (?t i)" "valid (?t j)" "?t' i = ?t i" "?t' j = ?t j"
        by auto
      with inv ij(3) show ?thesis unfolding table_inv_def by metis
    qed
  qed
  show ?thesis
    unfolding table_inv_def using n' ok fr dis by simp
qed

lemma table_inv_merge:
  assumes inv: "table_inv s"
    and ij: "i < g_memoryTableEntries s" "j < g_memoryTableEntries s" "i \<noteq> j"
    and v: "valid (g_memoryTable s i)" "valid (g_memoryTable s j)" "free (g_memoryTable s j)"
    and ei: "valid ei" "entry_ok ei"
            "blk_range ei \<subseteq> blk_range (g_memoryTable s i) \<union> blk_range (g_memoryTable s j)"
  shows "table_inv (s\<lparr>g_memoryTable := (g_memoryTable s)
                         (i := ei, j := (g_memoryTable s j)\<lparr>valid := False\<rparr>)\<rparr>)"
proof -
  let ?n = "g_memoryTableEntries s"
  let ?t = "g_memoryTable s"
  let ?t' = "?t(i := ei, j := (?t j)\<lparr>valid := False\<rparr>)"
  have ok: "entry_ok (?t' a)" if "a < ?n" "valid (?t' a)" for a
    using that inv ei by (auto simp: table_inv_def split: if_splits)
  have fr: "free (?t' a)" if "a < ?n" "\<not> valid (?t' a)" for a
    using that inv ei v by (auto simp: table_inv_def split: if_splits)
  have off: "blk_range (?t a) \<inter> (blk_range (?t i) \<union> blk_range (?t j)) = {}"
    if "a < ?n" "a \<noteq> i" "a \<noteq> j" "valid (?t a)" for a
  proof -
    have "blk_range (?t a) \<inter> blk_range (?t i) = {}"
      using that inv ij v unfolding table_inv_def by blast
    moreover have "blk_range (?t a) \<inter> blk_range (?t j) = {}"
      using that inv ij v unfolding table_inv_def by blast
    ultimately show ?thesis by blast
  qed
  have dis: "blk_range (?t' a) \<inter> blk_range (?t' b) = {}"
    if ab: "a < ?n" "b < ?n" "a \<noteq> b" "valid (?t' a)" "valid (?t' b)" for a b
  proof -
    have nj: "a \<noteq> j" "b \<noteq> j" using ab by auto
    consider "a = i" | "b = i" | "a \<noteq> i" "b \<noteq> i" by blast
    then show ?thesis
    proof cases
      case 1
      with ab nj have "b \<noteq> i" "valid (?t b)" "?t' b = ?t b" "?t' a = ei" by auto
      with off[of b] ab nj ei(3) show ?thesis by auto
    next
      case 2
      with ab nj have "a \<noteq> i" "valid (?t a)" "?t' a = ?t a" "?t' b = ei" by auto
      with off[of a] ab nj ei(3) show ?thesis by auto
    next
      case 3
      with ab nj have "valid (?t a)" "valid (?t b)" "?t' a = ?t a" "?t' b = ?t b" by auto
      with inv ab show ?thesis unfolding table_inv_def by metis
    qed
  qed
  show ?thesis
    unfolding table_inv_def using inv ok fr dis by (simp add: table_inv_def)
qed

lemma find_loop_Some:
  "find_loop s k = Some i \<Longrightarrow>
     k \<le> i \<and> i < g_memoryTableEntries s \<and> i < GLUS_MEMORY_TABLE_ENTRIES
     \<and> \<not> valid (g_memoryTable s i)"
proof (induction s k rule: find_loop.induct)
  case (1 s k)
  show ?case
  proof (cases "k < g_memoryTableEntries s \<and> k < GLUS_MEMORY_TABLE_ENTRIES")
    case False
    with "1.prems" show ?thesis by (subst (asm) find_loop.simps) auto
  next
    case inb: True
    show ?thesis
    proof (cases "valid (g_memoryTable s k)")
      case False
      with inb "1.prems" show ?thesis by (subst (asm) find_loop.simps) auto
    next
      case True
      with inb "1.prems" have "find_loop s (k + 1) = Some i"
        by (subst (asm) find_loop.simps) auto
      from "1.IH"[OF inb _ this] True show ?thesis by auto
    qed
  qed
qed

lemma find_loop_None:
  "find_loop s k = None \<Longrightarrow> k \<le> i \<Longrightarrow> i < g_memoryTableEntries s \<Longrightarrow>
     i < GLUS_MEMORY_TABLE_ENTRIES \<Longrightarrow> valid (g_memoryTable s i)"
proof (induction s k rule: find_loop.induct)
  case (1 s k)
  show ?case
  proof (cases "i = k")
    case True
    with "1.prems" show ?thesis by (subst (asm) find_loop.simps) (auto split: if_splits)
  next
    case False
    with "1.prems" have "find_loop s (k + 1) = None \<and> valid (g_memoryTable s k) \<and> k + 1 \<le> i"
      by (subst (asm) find_loop.simps) (auto split: if_splits)
    with "1.IH" "1.prems" show ?thesis by auto
  qed
qed

lemma find_loop_all_valid:
  "(\<And>i. k \<le> i \<Longrightarrow> i < g_memoryTableEntries s \<Longrightarrow> i < GLUS_MEMORY_TABLE_ENTRIES \<Longrightarrow>
      valid (g_memoryTable s i)) \<Longrightarrow> find_loop s k = None"
  by (cases "find_loop s k") (auto dest: find_loop_Some)

text \<open>The entry a grant writes the remainder to is never the granted entry.\<close>

definition other_index :: "nat \<Rightarrow> state \<Rightarrow> nat" where
  "other_index tableIndex s =
     (case glusFindMemoryTableEntry s of Some i \<Rightarrow> i | None \<Rightarrow> tableIndex + 1)"

lemma other_index_props:
  assumes "k < g_memoryTableEntries s" "valid (g_memoryTable s k)"
  shows "other_index k s \<noteq> k" "other_index k s \<le> g_memoryTableEntries s"
  using assms
  by (auto simp: other_index_def glusFindMemoryTableEntry_def split: option.splits
           dest: find_loop_Some)

text \<open>The arithmetic of a split, on an entry that satisfies the invariant.\<close>

lemma split_arith:
  fixes sz :: size_t
  assumes e: "entry_ok e" and fit: "sz \<le> length_e e"
  shows "unat (align4 sz) = roundedSize (unat sz)"
    and "roundedSize (unat sz) \<le> unat (length_e e)"
    and "unat (startIndex e + align4 sz div 4) = unat (startIndex e) + roundedSize (unat sz) div 4"
    and "unat (length_e e - align4 sz) = unat (length_e e) - roundedSize (unat sz)"
    and "\<not> align4 sz < sz"
proof -
  have le: "unat sz \<le> unat (length_e e)" using fit by (simp add: word_le_nat_alt)
  have m: "unat (length_e e) mod 4 = 0" using e by (simp add: entry_ok_def)
  show r: "roundedSize (unat sz) \<le> unat (length_e e)" by (rule roundedSize_le[OF le m])
  then have "roundedSize (unat sz) < 18446744073709551616"
    using unat_size_t_less[of "length_e e"] by simp
  then show a: "unat (align4 sz) = roundedSize (unat sz)" by (rule align4_exact)
  have b: "unat (startIndex e) + unat (length_e e) div 4 \<le> GLUS_MEMORY_SIZE div 4"
    using e by (simp add: entry_ok_def)
  have "unat (startIndex e) + unat (align4 sz div 4) < 2 ^ LENGTH(64)"
    using a r b by (simp add: unat_div4 GLUS_MEMORY_SIZE_def)
  then have "unat (startIndex e + align4 sz div 4) = unat (startIndex e) + unat (align4 sz div 4)"
    by (rule unat_add_lem[THEN iffD1])
  then show "unat (startIndex e + align4 sz div 4)
               = unat (startIndex e) + roundedSize (unat sz) div 4"
    by (simp add: unat_div4 a)
  have "align4 sz \<le> length_e e" using a r by (simp add: word_le_nat_alt)
  then show "unat (length_e e - align4 sz) = unat (length_e e) - roundedSize (unat sz)"
    by (simp add: unat_sub a)
  show "\<not> align4 sz < sz"
    using a roundedSize_ge[of "unat sz"] by (simp add: word_less_nat_alt)
qed

lemma grant_unfold:
  "grant a k s =
     (case glusInitMemoryTableEntry (other_index k s)
             (startIndex (g_memoryTable s k) + a div 4) (length_e (g_memoryTable s k) - a) s of
        Inl e \<Rightarrow> Inl e
      | Inr (ok, s1) \<Rightarrow>
          Inr (pointer (g_memoryTable s1 k),
               s1\<lparr>g_memoryTable := (g_memoryTable s1)(k := (g_memoryTable s1 k)
                     \<lparr>free := False,
                      length_e := (if ok then a else length_e (g_memoryTable s1 k))\<rparr>)\<rparr>))"
  by (simp add: grant_def other_index_def Let_def split: sum.splits prod.splits)

lemma split_sum:
  fixes A L :: nat
  assumes "A mod 4 = 0" "L mod 4 = 0" "A \<le> L"
  shows "A div 4 + (L - A) div 4 = L div 4"
proof -
  obtain a where a: "A = 4 * a" using assms(1) by (auto simp: mod_eq_0_iff_dvd)
  obtain l where l: "L = 4 * l" using assms(2) by (auto simp: mod_eq_0_iff_dvd)
  have "L - A = 4 * (l - a)" using a l by simp
  then show ?thesis using a l assms(3) by simp
qed

text \<open>
  A grant on a state that satisfies the invariant: it never reads outside the arena, the
  invariant holds afterwards, and the granted entry is marked allocated with at least the
  rounded size.
\<close>

lemma grant_inv:
  assumes inv: "table_inv s"
    and k: "k < g_memoryTableEntries s" "valid (g_memoryTable s k)"
    and fit: "sz \<le> length_e (g_memoryTable s k)"
  shows "\<exists>s'. grant (align4 sz) k s = Inr (pointer (g_memoryTable s k), s')
           \<and> table_inv s'
           \<and> g_memoryTableEntries s \<le> g_memoryTableEntries s'
           \<and> valid (g_memoryTable s' k) \<and> \<not> free (g_memoryTable s' k)
           \<and> pointer (g_memoryTable s' k) = pointer (g_memoryTable s k)
           \<and> startIndex (g_memoryTable s' k) = startIndex (g_memoryTable s k)
           \<and> roundedSize (unat sz) \<le> unat (length_e (g_memoryTable s' k))
           \<and> sz \<le> length_e (g_memoryTable s' k)"
proof -
  let ?t = "g_memoryTable s"
  let ?n = "g_memoryTableEntries s"
  let ?o = "other_index k s"
  let ?a = "align4 sz"
  let ?S = "startIndex (?t k) + ?a div 4"
  let ?R = "length_e (?t k) - ?a"
  define S0 where "S0 = unat (startIndex (?t k))"
  define L0 where "L0 = unat (length_e (?t k))"
  define A where "A = roundedSize (unat sz)"
  have ek: "entry_ok (?t k)" using inv k by (simp add: table_inv_def)
  have ar: "unat ?a = A" "A \<le> L0" "unat ?S = S0 + A div 4" "unat ?R = L0 - A" "\<not> ?a < sz"
    using split_arith[OF ek fit] unfolding S0_def L0_def A_def by blast+
  have Am: "A mod 4 = 0" unfolding A_def by (rule roundedSize_mod4)
  have Lm: "L0 mod 4 = 0" using ek unfolding entry_ok_def L0_def by blast
  have bound: "S0 + L0 div 4 \<le> GLUS_MEMORY_SIZE div 4"
    using ek unfolding entry_ok_def L0_def S0_def by blast
  have Adiv: "A div 4 \<le> L0 div 4" using ar(2) by (rule div_le_mono)
  have sum: "A div 4 + (L0 - A) div 4 = L0 div 4"
    by (rule split_sum[OF Am Lm ar(2)])
  have RAm: "(L0 - A) mod 4 = 0" using Am Lm ar(2) by (simp add: mod_eq_0_iff_dvd)
  note op = other_index_props[OF k]
  have b0: "blk_range (?t k) = {S0 ..< S0 + L0 div 4}"
    unfolding blk_range_def S0_def L0_def by (rule refl)
  show ?thesis
  proof (cases "?o \<ge> GLUS_MEMORY_TABLE_ENTRIES")
    case True
    let ?s' = "s\<lparr>g_memoryTable := ?t(k := (?t k)\<lparr>free := False\<rparr>)\<rparr>"
    from True have i: "glusInitMemoryTableEntry ?o ?S ?R s = Inr (False, s)"
      by (simp add: glusInitMemoryTableEntry_def)
    have g: "grant ?a k s = Inr (pointer (?t k), ?s')"
      unfolding grant_unfold i by simp
    have "table_inv ?s'"
      using inv k by (intro table_inv_flag) auto
    moreover have "roundedSize (unat sz) \<le> unat (length_e (g_memoryTable ?s' k))"
      using ar(2) unfolding A_def L0_def by simp
    ultimately show ?thesis using g k fit by simp
  next
    case False
    then have olt: "?o < GLUS_MEMORY_TABLE_ENTRIES" by simp
    have inb: "\<not> GLUS_MEMORY_SIZE \<le> unat ?S"
      using Adiv bound unfolding ar(3) GLUS_MEMORY_SIZE_def by simp
    let ?eo = "\<lparr>valid = True, free = True, startIndex = ?S, length_e = ?R,
                 pointer = ucast (g_memory s (unat ?S))\<rparr>"
    let ?ek = "(?t k)\<lparr>free := False, length_e := ?a\<rparr>"
    let ?s' = "s\<lparr>g_memoryTable := ?t(?o := ?eo, k := ?ek),
                 g_memoryTableEntries := (if ?o = ?n then ?n + 1 else ?n)\<rparr>"
    have i: "glusInitMemoryTableEntry ?o ?S ?R s = Inr (True,
               s\<lparr>g_memoryTable := ?t(?o := ?eo),
                 g_memoryTableEntries := (if ?o = ?n then ?n + 1 else ?n)\<rparr>)"
      using olt inb by (simp add: glusInitMemoryTableEntry_def)
    have g: "grant ?a k s = Inr (pointer (?t k), ?s')"
      unfolding grant_unfold i using op(1) by simp
    have bk: "blk_range ?ek = {S0 ..< S0 + A div 4}"
      unfolding blk_range_def by (simp add: ar(1) S0_def)
    have bo: "blk_range ?eo = {S0 + A div 4 ..< S0 + A div 4 + (L0 - A) div 4}"
      unfolding blk_range_def by (simp add: ar(3) ar(4))
    have rk: "blk_range ?ek \<subseteq> blk_range (?t k)"
      unfolding bk b0 using Adiv by simp
    have ro: "blk_range ?eo \<subseteq> blk_range (?t k)"
      unfolding bo b0 using sum by simp
    have dj: "blk_range ?ek \<inter> blk_range ?eo = {}"
      unfolding bk bo by simp
    have okk: "entry_ok ?ek"
      unfolding entry_ok_def using Am Adiv bound by (simp add: ar(1) S0_def)
    have oko: "entry_ok ?eo"
      unfolding entry_ok_def using RAm sum bound by (simp add: ar(3) ar(4) add.assoc)
    have vk: "valid ?ek" using k by simp
    have vo: "valid ?eo" by simp
    have "table_inv ?s'"
      by (rule table_inv_split[OF inv k op(1) op(2) olt vk okk rk vo oko ro dj])
    moreover have "roundedSize (unat sz) \<le> unat (length_e (g_memoryTable ?s' k))"
      using ar(1) unfolding A_def by simp
    moreover have "sz \<le> length_e (g_memoryTable ?s' k)"
      using ar(5) by simp
    ultimately show ?thesis using g k by simp
  qed
qed

subsection \<open>The collector keeps the invariant\<close>

lemma gc_merge_table:
  "i \<noteq> j \<Longrightarrow> gc_merge i j s =
     s\<lparr>g_memoryTable := (g_memoryTable s)
          (i := (g_memoryTable s i)\<lparr>length_e := length_e (g_memoryTable s i)
                                               + length_e (g_memoryTable s j)\<rparr>,
           j := (g_memoryTable s j)\<lparr>valid := False\<rparr>)\<rparr>"
  by (simp add: gc_merge_def Let_def)

lemma merge_arith:
  fixes si li sj lj :: size_t
  assumes i: "unat li mod 4 = 0" "unat si + unat li div 4 \<le> GLUS_MEMORY_SIZE div 4"
    and j: "unat lj mod 4 = 0" "unat sj + unat lj div 4 \<le> GLUS_MEMORY_SIZE div 4"
    and adj: "si + li div 4 = sj"
  shows "unat sj = unat si + unat li div 4"
    and "unat (li + lj) = unat li + unat lj"
proof -
  have "unat si + unat (li div 4) < 2 ^ LENGTH(64)"
    using i(2) by (simp add: unat_div4 GLUS_MEMORY_SIZE_def)
  then have "unat (si + li div 4) = unat si + unat (li div 4)"
    by (rule unat_add_lem[THEN iffD1])
  then show "unat sj = unat si + unat li div 4" using adj by (simp add: unat_div4)
  have "unat li div 4 \<le> 1048576" "unat lj div 4 \<le> 1048576"
    using i(2) j(2) by (simp_all add: GLUS_MEMORY_SIZE_def)
  then have "unat li + unat lj < 2 ^ LENGTH(64)" by simp
  then show "unat (li + lj) = unat li + unat lj" by (rule unat_add_lem[THEN iffD1])
qed

lemma merge_sum:
  fixes A L :: nat
  assumes "A mod 4 = 0" "L mod 4 = 0"
  shows "(A + L) div 4 = A div 4 + L div 4" "(A + L) mod 4 = 0"
proof -
  obtain a where a: "A = 4 * a" using assms(1) by (auto simp: mod_eq_0_iff_dvd)
  obtain l where l: "L = 4 * l" using assms(2) by (auto simp: mod_eq_0_iff_dvd)
  have "A + L = 4 * (a + l)" using a l by simp
  then show "(A + L) div 4 = A div 4 + L div 4" "(A + L) mod 4 = 0" using a l by simp_all
qed

lemma gc_merge_inv:
  assumes inv: "table_inv s"
    and ij: "i < g_memoryTableEntries s" "j < g_memoryTableEntries s" "i \<noteq> j"
    and v: "valid (g_memoryTable s i)" "valid (g_memoryTable s j)" "free (g_memoryTable s j)"
    and adj: "startIndex (g_memoryTable s i) + length_e (g_memoryTable s i) div 4
                = startIndex (g_memoryTable s j)"
  shows "table_inv (gc_merge i j s)"
proof -
  let ?t = "g_memoryTable s"
  let ?ei = "(?t i)\<lparr>length_e := length_e (?t i) + length_e (?t j)\<rparr>"
  define Si where "Si = unat (startIndex (?t i))"
  define Li where "Li = unat (length_e (?t i))"
  define Sj where "Sj = unat (startIndex (?t j))"
  define Lj where "Lj = unat (length_e (?t j))"
  have oi: "Li mod 4 = 0" "Si + Li div 4 \<le> GLUS_MEMORY_SIZE div 4"
    using inv ij v unfolding table_inv_def entry_ok_def Li_def Si_def by blast+
  have oj: "Lj mod 4 = 0" "Sj + Lj div 4 \<le> GLUS_MEMORY_SIZE div 4"
    using inv ij v unfolding table_inv_def entry_ok_def Lj_def Sj_def by blast+
  have ar: "Sj = Si + Li div 4" "unat (length_e (?t i) + length_e (?t j)) = Li + Lj"
    using merge_arith[OF oi[unfolded Li_def Si_def] oj[unfolded Lj_def Sj_def] adj]
    unfolding Si_def Li_def Sj_def Lj_def by blast+
  note ms = merge_sum[OF oi(1) oj(1)]
  have bi: "blk_range (?t i) = {Si ..< Si + Li div 4}"
    unfolding blk_range_def Si_def Li_def by (rule refl)
  have bj: "blk_range (?t j) = {Sj ..< Sj + Lj div 4}"
    unfolding blk_range_def Sj_def Lj_def by (rule refl)
  have be: "blk_range ?ei = {Si ..< Si + (Li + Lj) div 4}"
    unfolding blk_range_def by (simp add: ar(2) Si_def)
  have sub: "blk_range ?ei \<subseteq> blk_range (?t i) \<union> blk_range (?t j)"
    unfolding be bi bj ms(1) ar(1) by auto
  have ok: "entry_ok ?ei"
    unfolding entry_ok_def using ms oj(2) ar(1) by (simp add: ar(2) Si_def add.assoc)
  have ve: "valid ?ei" using v by simp
  show ?thesis
    unfolding gc_merge_table[OF ij(3)]
    by (rule table_inv_merge[OF inv ij v ve ok sub])
qed

lemma gc_merge_keeps:
  assumes "i \<noteq> j"
  shows "valid (g_memoryTable (gc_merge i j s) i) = valid (g_memoryTable s i)"
    and "free (g_memoryTable (gc_merge i j s) k) = free (g_memoryTable s k)"
    and "pointer (g_memoryTable (gc_merge i j s) k) = pointer (g_memoryTable s k)"
    and "k \<noteq> i \<Longrightarrow> k \<noteq> j \<Longrightarrow> g_memoryTable (gc_merge i j s) k = g_memoryTable s k"
  using assms by (simp_all add: gc_merge_table)

text \<open>
  What the inner loop maintains, for the entry \<open>tableIndex\<close> it extends: the invariant,
  and that entry stays valid and free.  Entries that are not free are never touched.
\<close>

definition gc_frame :: "state \<Rightarrow> state \<Rightarrow> bool" where
  "gc_frame s s' \<longleftrightarrow>
     g_memoryTableEntries s' = g_memoryTableEntries s
     \<and> (\<forall>k. free (g_memoryTable s' k) = free (g_memoryTable s k)
            \<and> pointer (g_memoryTable s' k) = pointer (g_memoryTable s k)
            \<and> (\<not> free (g_memoryTable s k) \<longrightarrow> g_memoryTable s' k = g_memoryTable s k))"

lemma gc_frame_refl: "gc_frame s s"
  by (simp add: gc_frame_def)

lemma gc_frame_trans: "gc_frame s s1 \<Longrightarrow> gc_frame s1 s2 \<Longrightarrow> gc_frame s s2"
  by (auto simp: gc_frame_def)

lemma gc_frame_merge:
  "i \<noteq> j \<Longrightarrow> free (g_memoryTable s i) \<Longrightarrow> free (g_memoryTable s j) \<Longrightarrow>
     gc_frame s (gc_merge i j s)"
  by (auto simp: gc_frame_def gc_merge_table)

lemma gc_inner_inv:
  assumes "table_inv s" "i < g_memoryTableEntries s"
    "valid (g_memoryTable s i)" "free (g_memoryTable s i)"
    "gc_inner i j s c = (s', c')"
  shows "table_inv s' \<and> gc_frame s s'"
  using assms
proof (induction i j s c arbitrary: s' c' rule: gc_inner.induct)
  case (1 i j s c)
  note run = "1.prems"(5)
  show ?case
  proof (cases "j < g_memoryTableEntries s \<and> j < GLUS_MEMORY_TABLE_ENTRIES")
    case False
    with run have "s' = s" by (subst (asm) gc_inner.simps) auto
    with "1.prems" show ?thesis by (simp add: gc_frame_refl)
  next
    case inb: True
    show ?thesis
    proof (cases "j = i")
      case True
      with inb run have "gc_inner i (j + 1) s c = (s', c')"
        by (subst (asm) gc_inner.simps) simp
      from "1.IH"(1)[OF inb True "1.prems"(1-4) this] show ?thesis .
    next
      case ne: False
      show ?thesis
      proof (cases "valid (g_memoryTable s j) \<and> free (g_memoryTable s j)
                 \<and> startIndex (g_memoryTable s i) + length_e (g_memoryTable s i) div 4
                   = startIndex (g_memoryTable s j)")
        case True
        let ?m = "gc_merge i j s"
        from True inb ne run have r: "gc_inner i (j + 1) ?m True = (s', c')"
          by (subst (asm) gc_inner.simps) simp
        have ij: "i \<noteq> j" using ne by simp
        have inv: "table_inv ?m"
          using gc_merge_inv[OF "1.prems"(1) "1.prems"(2) _ ij "1.prems"(3)] True inb by simp
        have fr: "gc_frame s ?m"
          using gc_frame_merge[OF ij "1.prems"(4)] True by simp
        have pre: "i < g_memoryTableEntries ?m" "valid (g_memoryTable ?m i)"
                  "free (g_memoryTable ?m i)"
          using "1.prems"(2-4) gc_merge_keeps(1,2)[OF ij] by (simp_all add: gc_merge_entries)
        from "1.IH"(2)[OF inb ne True inv pre r] fr show ?thesis
          by (auto intro: gc_frame_trans)
      next
        case False
        with inb ne run have "gc_inner i (j + 1) s c = (s', c')"
          by (subst (asm) gc_inner.simps) auto
        from "1.IH"(3)[OF inb ne False "1.prems"(1-4) this] show ?thesis .
      qed
    qed
  qed
qed

lemma gc_outer_inv:
  assumes "table_inv s" "gc_outer i s c = (s', c')"
  shows "table_inv s' \<and> gc_frame s s'"
  using assms
proof (induction i s c arbitrary: s' c' rule: gc_outer.induct)
  case (1 i s c)
  note run = "1.prems"(2)
  show ?case
  proof (cases "i < g_memoryTableEntries s \<and> i < GLUS_MEMORY_TABLE_ENTRIES")
    case False
    with run have "s' = s" by (subst (asm) gc_outer.simps) auto
    with "1.prems" show ?thesis by (simp add: gc_frame_refl)
  next
    case inb: True
    show ?thesis
    proof (cases "valid (g_memoryTable s i) \<and> free (g_memoryTable s i)")
      case True
      obtain s1 c1 where in1: "gc_inner i 0 s c = (s1, c1)" by (cases "gc_inner i 0 s c")
      with inb True run have r: "gc_outer (i + 1) s1 c1 = (s', c')"
        by (subst (asm) gc_outer.simps) simp
      have a: "table_inv s1 \<and> gc_frame s s1"
        using gc_inner_inv[OF "1.prems"(1) _ _ _ in1] inb True by simp
      from "1.IH"(1)[OF inb True in1[symmetric] _ r] a show ?thesis
        by (auto intro: gc_frame_trans)
    next
      case False
      with inb run have "gc_outer (i + 1) s c = (s', c')"
        by (subst (asm) gc_outer.simps) auto
      from "1.IH"(2)[OF inb False "1.prems"(1) this] show ?thesis .
    qed
  qed
qed

lemma glusGarbageCollect_inv:
  "table_inv s \<Longrightarrow> table_inv (glusGarbageCollect s) \<and> gc_frame s (glusGarbageCollect s)"
proof (induction s rule: glusGarbageCollect.induct)
  case (1 s)
  obtain s1 c1 where p: "gc_outer 0 s False = (s1, c1)" by (cases "gc_outer 0 s False")
  note a = gc_outer_inv[OF "1.prems" p]
  show ?case
  proof (cases c1)
    case True
    then have "glusGarbageCollect s = glusGarbageCollect s1"
      using p by (subst glusGarbageCollect.simps) simp
    with "1.IH"[OF p[symmetric] True] a show ?thesis by (auto intro: gc_frame_trans)
  next
    case False
    then have "glusGarbageCollect s = s1"
      using p by (subst glusGarbageCollect.simps) simp
    with a show ?thesis by simp
  qed
qed

subsection \<open>First fit\<close>

text \<open>
  The search as the specification words it: the first entry, in table order among the
  activated slots, that is Free and whose length is at least the rounded size \<open>r\<close>.
\<close>

definition fits :: "state \<Rightarrow> nat \<Rightarrow> nat \<Rightarrow> bool" where
  "fits s r i \<longleftrightarrow> valid (g_memoryTable s i) \<and> free (g_memoryTable s i)
     \<and> r \<le> unat (length_e (g_memoryTable s i))"

definition first_fit_from :: "nat \<Rightarrow> state \<Rightarrow> nat \<Rightarrow> nat option" where
  "first_fit_from k s r =
     find (fits s r) [k ..< min (g_memoryTableEntries s) GLUS_MEMORY_TABLE_ENTRIES]"

definition first_fit :: "state \<Rightarrow> nat \<Rightarrow> nat option" where
  "first_fit s r = first_fit_from 0 s r"

lemma first_fit_from_step:
  "k < g_memoryTableEntries s \<Longrightarrow> k < GLUS_MEMORY_TABLE_ENTRIES \<Longrightarrow>
     first_fit_from k s r = (if fits s r k then Some k else first_fit_from (k + 1) s r)"
  by (simp add: first_fit_from_def upt_conv_Cons)

lemma first_fit_from_end:
  "\<not> (k < g_memoryTableEntries s \<and> k < GLUS_MEMORY_TABLE_ENTRIES) \<Longrightarrow>
     first_fit_from k s r = None"
  by (auto simp: first_fit_from_def)

lemma find_SomeD: "find P xs = Some x \<Longrightarrow> P x \<and> x \<in> set xs"
  by (induction xs) (auto split: if_splits)

lemma first_fit_from_Some:
  "first_fit_from k s r = Some i \<Longrightarrow>
     fits s r i \<and> k \<le> i \<and> i < g_memoryTableEntries s \<and> i < GLUS_MEMORY_TABLE_ENTRIES"
  by (auto simp: first_fit_from_def dest!: find_SomeD)

lemma first_fit_from_None:
  "first_fit_from k s r = None \<Longrightarrow> k \<le> i \<Longrightarrow> i < g_memoryTableEntries s \<Longrightarrow>
     i < GLUS_MEMORY_TABLE_ENTRIES \<Longrightarrow> \<not> fits s r i"
  by (auto simp: first_fit_from_def find_None_iff)

text \<open>On an entry that satisfies the invariant the test of the source, against the
  unrounded size, is the test against the rounded size.\<close>

lemma fits_iff:
  assumes "table_inv s" "i < g_memoryTableEntries s"
  shows "(valid (g_memoryTable s i) \<and> free (g_memoryTable s i)
            \<and> sz \<le> length_e (g_memoryTable s i))
         = fits s (roundedSize (unat sz)) i"
proof (cases "valid (g_memoryTable s i)")
  case False
  then show ?thesis by (simp add: fits_def)
next
  case True
  with assms have "unat (length_e (g_memoryTable s i)) mod 4 = 0"
    by (simp add: table_inv_def entry_ok_def)
  from roundedSize_le[OF _ this, of "unat sz"] roundedSize_ge[of "unat sz"]
  have "(unat sz \<le> unat (length_e (g_memoryTable s i)))
        = (roundedSize (unat sz) \<le> unat (length_e (g_memoryTable s i)))"
    by auto
  then show ?thesis by (simp add: fits_def word_le_nat_alt)
qed

lemma malloc_loop_first_fit:
  assumes "table_inv s"
  shows "malloc_loop sz a k s =
           (case first_fit_from k s (roundedSize (unat sz)) of
              None \<Rightarrow> Inr (0, s) | Some i \<Rightarrow> grant a i s)"
  using assms
proof (induction sz a k s rule: malloc_loop.induct)
  case (1 sz a k s)
  show ?case
  proof (cases "k < g_memoryTableEntries s \<and> k < GLUS_MEMORY_TABLE_ENTRIES")
    case False
    have "malloc_loop sz a k s = Inr (0, s)"
      by (subst malloc_loop.simps) (use False in auto)
    then show ?thesis by (simp add: first_fit_from_end[OF False])
  next
    case inb: True
    note f = fits_iff[OF "1.prems", of k sz] first_fit_from_step[of k s "roundedSize (unat sz)"]
    show ?thesis
    proof (cases "valid (g_memoryTable s k) \<and> free (g_memoryTable s k)
                   \<and> length_e (g_memoryTable s k) \<ge> sz")
      case True
      with inb f show ?thesis by (subst malloc_loop.simps) simp
    next
      case False
      from "1.IH"[OF inb False "1.prems"] inb False f show ?thesis
        by (subst malloc_loop.simps) auto
    qed
  qed
qed

lemma first_fit_overflow:
  assumes "18446744073709551616 \<le> r"
  shows "first_fit_from k s r = None"
proof -
  have "\<not> fits s r i" for i
    using assms unat_size_t_less[of "length_e (g_memoryTable s i)"] by (simp add: fits_def)
  then show ?thesis by (simp add: first_fit_from_def find_None_iff)
qed

lemma glusInternalMalloc_first_fit:
  assumes "table_inv s"
  shows "glusInternalMalloc sz s =
           (case first_fit s (roundedSize (unat sz)) of
              None \<Rightarrow> Inr (0, s) | Some i \<Rightarrow> grant (align4 sz) i s)"
proof (cases "align4 sz < sz")
  case True
  from first_fit_overflow[OF align4_wraps[OF this]] True show ?thesis
    by (simp add: glusInternalMalloc_def first_fit_def)
next
  case False
  with malloc_loop_first_fit[OF assms] show ?thesis
    by (simp add: glusInternalMalloc_def first_fit_def)
qed

text \<open>The outcome of \<open>glusInternalMalloc\<close> on a state that satisfies the invariant.\<close>

lemma glusInternalMalloc_inv:
  assumes inv: "table_inv s"
  shows "(first_fit s (roundedSize (unat sz)) = None \<and> glusInternalMalloc sz s = Inr (0, s))
       \<or> (\<exists>i s'. first_fit s (roundedSize (unat sz)) = Some i
            \<and> glusInternalMalloc sz s = Inr (pointer (g_memoryTable s i), s')
            \<and> grant (align4 sz) i s = Inr (pointer (g_memoryTable s i), s')
            \<and> table_inv s'
            \<and> g_memoryTableEntries s \<le> g_memoryTableEntries s'
            \<and> i < g_memoryTableEntries s
            \<and> valid (g_memoryTable s' i) \<and> \<not> free (g_memoryTable s' i)
            \<and> pointer (g_memoryTable s' i) = pointer (g_memoryTable s i)
            \<and> roundedSize (unat sz) \<le> unat (length_e (g_memoryTable s' i))
            \<and> sz \<le> length_e (g_memoryTable s' i))"
proof (cases "first_fit s (roundedSize (unat sz))")
  case None
  then show ?thesis using glusInternalMalloc_first_fit[OF inv, of sz] by simp
next
  case (Some i)
  then have f: "fits s (roundedSize (unat sz)) i" "i < g_memoryTableEntries s"
    using first_fit_from_Some[of 0 s _ i] by (simp_all add: first_fit_def)
  then have v: "valid (g_memoryTable s i)" "sz \<le> length_e (g_memoryTable s i)"
    using fits_iff[OF inv f(2), of sz] by (simp_all add: fits_def)
  from grant_inv[OF inv f(2) v] obtain s' where
    "grant (align4 sz) i s = Inr (pointer (g_memoryTable s i), s')"
    "table_inv s'" "g_memoryTableEntries s \<le> g_memoryTableEntries s'"
    "valid (g_memoryTable s' i)" "\<not> free (g_memoryTable s' i)"
    "pointer (g_memoryTable s' i) = pointer (g_memoryTable s i)"
    "roundedSize (unat sz) \<le> unat (length_e (g_memoryTable s' i))"
    "sz \<le> length_e (g_memoryTable s' i)" by blast
  with Some f(2) glusInternalMalloc_first_fit[OF inv, of sz] show ?thesis by simp
qed

subsection \<open>glusFree on the table\<close>

lemma free_loop_inv: "table_inv s \<Longrightarrow> table_inv (free_loop p k s)"
proof (induction p k s rule: free_loop.induct)
  case (1 p k s)
  show ?case
  proof (cases "k < g_memoryTableEntries s \<and> k < GLUS_MEMORY_TABLE_ENTRIES")
    case False
    then have "free_loop p k s = s" by (subst free_loop.simps) auto
    with "1.prems" show ?thesis by simp
  next
    case inb: True
    show ?thesis
    proof (cases "pointer (g_memoryTable s k) = p")
      case True
      with inb have "free_loop p k s = s\<lparr>g_memoryTable := (g_memoryTable s)(k :=
                   (g_memoryTable s k)\<lparr>free := True\<rparr>)\<rparr>"
        by (subst free_loop.simps) simp
      with table_inv_flag[OF "1.prems", of k True] show ?thesis by simp
    next
      case False
      with inb have "free_loop p k s = free_loop p (k + 1) s"
        by (subst free_loop.simps) simp
      with "1.IH"[OF inb False "1.prems"] show ?thesis by simp
    qed
  qed
qed

lemma free_loop_unchanged:
  assumes "\<And>i. k \<le> i \<Longrightarrow> i < g_memoryTableEntries s \<Longrightarrow> i < GLUS_MEMORY_TABLE_ENTRIES \<Longrightarrow>
             pointer (g_memoryTable s i) = p \<Longrightarrow> free (g_memoryTable s i)"
  shows "free_loop p k s = s"
  using assms
proof (induction p k s rule: free_loop.induct)
  case (1 p k s)
  show ?case
  proof (cases "k < g_memoryTableEntries s \<and> k < GLUS_MEMORY_TABLE_ENTRIES")
    case False
    then show ?thesis by (subst free_loop.simps) auto
  next
    case inb: True
    show ?thesis
    proof (cases "pointer (g_memoryTable s k) = p")
      case True
      with inb "1.prems"[of k] have "free (g_memoryTable s k)" by simp
      then have "(g_memoryTable s k)\<lparr>free := True\<rparr> = g_memoryTable s k"
        by (cases "g_memoryTable s k") simp
      with inb True show ?thesis by (subst free_loop.simps) simp
    next
      case False
      with inb have "free_loop p k s = free_loop p (k + 1) s"
        by (subst free_loop.simps) simp
      moreover have "free_loop p (k + 1) s = s"
        by (rule "1.IH"[OF inb False]) (use "1.prems" in auto)
      ultimately show ?thesis by simp
    qed
  qed
qed

subsection \<open>Reachable states\<close>

text \<open>
  The states the program can be in: the static initialisation, followed by calls of
  \<open>glusInternalMalloc\<close> (with a size that is not 0, as \<open>glusMalloc\<close> calls it),
  \<open>glusGarbageCollect\<close> and \<open>glusFree\<close>, and by stores of the caller into the arena.
  A call of \<open>glusMalloc\<close> is a sequence of such steps.
\<close>

inductive reachable :: "state \<Rightarrow> bool" where
  init: "reachable (initial_state base)"
| allocate: "reachable s \<Longrightarrow> sz \<noteq> 0 \<Longrightarrow> glusInternalMalloc sz s = Inr (p, s') \<Longrightarrow> reachable s'"
| collect: "reachable s \<Longrightarrow> reachable (glusGarbageCollect s)"
| release: "reachable s \<Longrightarrow> reachable (glusFree p s)"
| store: "reachable s \<Longrightarrow> reachable (s\<lparr>g_memory := m\<rparr>)"

lemma reachable_glusMalloc:
  assumes "reachable s" "glusMalloc sz s = Inr (p, s')"
  shows "reachable s'"
proof (cases "sz = 0")
  case True
  with assms show ?thesis by (simp add: glusMalloc_def)
next
  case False
  with assms(2) obtain p1 s1 where 1: "glusInternalMalloc sz s = Inr (p1, s1)"
    by (auto simp: glusMalloc_def split: sum.splits)
  then have r1: "reachable s1" using assms(1) False by (auto intro: reachable.allocate)
  show ?thesis
  proof (cases "p1 = 0")
    case True
    with assms(2) False 1 have "glusInternalMalloc sz (glusGarbageCollect s1) = Inr (p, s')"
      by (simp add: glusMalloc_def)
    with r1 False show ?thesis by (auto intro: reachable.allocate reachable.collect)
  next
    case ne: False
    with assms(2) False 1 have "s' = s1" by (simp add: glusMalloc_def)
    with r1 show ?thesis by simp
  qed
qed

lemma reachable_inv: "reachable s \<Longrightarrow> table_inv s"
proof (induction rule: reachable.induct)
  case (init base)
  show ?case by (rule table_inv_initial)
next
  case (allocate s sz p s')
  with glusInternalMalloc_inv[OF allocate.IH, of sz] show ?case by auto
next
  case (collect s)
  then show ?case by (simp add: glusGarbageCollect_inv)
next
  case (release s p)
  then show ?case by (simp add: glusFree_def free_loop_inv)
next
  case (store s m)
  then show ?case by (simp add: table_inv_store)
qed

text \<open>In a reachable state no call reads outside the arena: the error branch of the
  model is never taken.\<close>

lemma reachable_no_error:
  assumes "reachable s"
  shows "\<exists>p s'. glusInternalMalloc sz s = Inr (p, s')"
    and "\<exists>p s'. glusMalloc sz s = Inr (p, s')"
proof -
  have i: "\<exists>p s'. glusInternalMalloc sz s = Inr (p, s')" if "table_inv s" for s
    using glusInternalMalloc_inv[OF that, of sz] by auto
  from i[OF reachable_inv[OF assms]] show "\<exists>p s'. glusInternalMalloc sz s = Inr (p, s')" .
  then obtain p1 s1 where 1: "glusInternalMalloc sz s = Inr (p1, s1)" by blast
  show "\<exists>p s'. glusMalloc sz s = Inr (p, s')"
  proof (cases "sz = 0")
    case True
    then show ?thesis by (simp add: glusMalloc_def)
  next
    case False
    with 1 assms have "reachable s1" by (auto intro: reachable.allocate)
    then have "table_inv (glusGarbageCollect s1)"
      by (intro reachable_inv reachable.collect)
    from i[OF this] 1 False show ?thesis by (auto simp: glusMalloc_def)
  qed
qed

text \<open>
  C3: \<open>glusInternalMalloc\<close> grants the first entry, in table order among the activated
  slots, that is Free and whose length is at least the requested size rounded up to a
  multiple of 4 (\<open>first_fit\<close> with \<open>roundedSize\<close>).  If there is none it returns null and
  leaves the state as it is; otherwise it returns the pointer of that entry, which is
  Allocated afterwards with a length of at least the rounded size.  This holds on every
  table that satisfies the invariant \<open>table_inv\<close>, whatever its entries are, and the
  invariant holds again afterwards; every reachable state satisfies it (\<open>reachable_inv\<close>).
  The source compares the length with the unrounded \<open>size\<close>; under the invariant the
  lengths of the valid entries are multiples of 4, so that the two comparisons select
  the same entry.
\<close>

theorem C3_first_fit_rounded:
  assumes "table_inv s"
  shows "case first_fit s (roundedSize (unat sz)) of
           None \<Rightarrow> glusInternalMalloc sz s = Inr (0, s)
         | Some i \<Rightarrow>
             (\<exists>s'. glusInternalMalloc sz s = Inr (pointer (g_memoryTable s i), s')
                \<and> table_inv s'
                \<and> valid (g_memoryTable s' i) \<and> \<not> free (g_memoryTable s' i)
                \<and> roundedSize (unat sz) \<le> unat (length_e (g_memoryTable s' i)))"
  using glusInternalMalloc_inv[OF assms, of sz]
  by (auto split: option.splits)

text \<open>
  What \<open>glusFree\<close> leaves unchanged: the state, when the pointer is null, when it is not
  the pointer recorded in any of the activated entries, and, in a reachable state, when
  it is not the pointer recorded in any valid entry.
\<close>

lemma glusFree_unmatched:
  "glusFree 0 s = s
   \<and> ((\<forall>i. i < g_memoryTableEntries s \<and> i < GLUS_MEMORY_TABLE_ENTRIES
           \<longrightarrow> pointer (g_memoryTable s i) \<noteq> p) \<longrightarrow> glusFree p s = s)
   \<and> (reachable s \<and> (\<forall>i. i < g_memoryTableEntries s \<and> i < GLUS_MEMORY_TABLE_ENTRIES
           \<and> valid (g_memoryTable s i) \<longrightarrow> pointer (g_memoryTable s i) \<noteq> p)
        \<longrightarrow> glusFree p s = s)"
proof (intro conjI impI)
  show "glusFree 0 s = s" by (simp add: glusFree_def)
next
  assume "\<forall>i. i < g_memoryTableEntries s \<and> i < GLUS_MEMORY_TABLE_ENTRIES
            \<longrightarrow> pointer (g_memoryTable s i) \<noteq> p"
  then have "free_loop p 0 s = s" by (intro free_loop_unchanged) auto
  then show "glusFree p s = s" by (simp add: glusFree_def)
next
  assume a: "reachable s \<and> (\<forall>i. i < g_memoryTableEntries s \<and> i < GLUS_MEMORY_TABLE_ENTRIES
           \<and> valid (g_memoryTable s i) \<longrightarrow> pointer (g_memoryTable s i) \<noteq> p)"
  then have inv: "table_inv s" by (simp add: reachable_inv)
  have "free_loop p 0 s = s"
  proof (rule free_loop_unchanged)
    fix i assume i: "i < g_memoryTableEntries s" "i < GLUS_MEMORY_TABLE_ENTRIES"
      "pointer (g_memoryTable s i) = p"
    with a have "\<not> valid (g_memoryTable s i)" by auto
    with inv i(1) show "free (g_memoryTable s i)" by (simp add: table_inv_def)
  qed
  then show "glusFree p s = s" by (simp add: glusFree_def)
qed

subsection \<open>The fixed point of the collector\<close>

text \<open>Two distinct Free entries, the second starting where the first ends.\<close>

definition adjacent_free :: "state \<Rightarrow> nat \<Rightarrow> nat \<Rightarrow> bool" where
  "adjacent_free s a b \<longleftrightarrow>
     a \<noteq> b
     \<and> valid (g_memoryTable s a) \<and> free (g_memoryTable s a)
     \<and> valid (g_memoryTable s b) \<and> free (g_memoryTable s b)
     \<and> startIndex (g_memoryTable s a) + length_e (g_memoryTable s a) div 4
         = startIndex (g_memoryTable s b)"

text \<open>A loop that leaves the flag \<open>continueGC\<close> false has merged nothing.\<close>

lemma gc_inner_quiet:
  assumes "gc_inner i j s c = (s', False)"
  shows "s' = s \<and> \<not> c
     \<and> (valid (g_memoryTable s i) \<and> free (g_memoryTable s i) \<longrightarrow>
          (\<forall>b. j \<le> b \<and> b < g_memoryTableEntries s \<and> b < GLUS_MEMORY_TABLE_ENTRIES
               \<longrightarrow> \<not> adjacent_free s i b))"
  using assms
proof (induction i j s c arbitrary: s' rule: gc_inner.induct)
  case (1 i j s c)
  note run = "1.prems"
  show ?case
  proof (cases "j < g_memoryTableEntries s \<and> j < GLUS_MEMORY_TABLE_ENTRIES")
    case False
    with run show ?thesis by (subst (asm) gc_inner.simps) auto
  next
    case inb: True
    show ?thesis
    proof (cases "j = i")
      case True
      with inb run have "gc_inner i (j + 1) s c = (s', False)"
        by (subst (asm) gc_inner.simps) simp
      from "1.IH"(1)[OF inb True this] have
        a: "s' = s" "\<not> c" "valid (g_memoryTable s i) \<and> free (g_memoryTable s i) \<longrightarrow>
          (\<forall>b. j + 1 \<le> b \<and> b < g_memoryTableEntries s \<and> b < GLUS_MEMORY_TABLE_ENTRIES
             \<longrightarrow> \<not> adjacent_free s i b)" by auto
      have "\<not> adjacent_free s i j" using True by (simp add: adjacent_free_def)
      with a show ?thesis
        by (metis Suc_eq_plus1 Suc_leI le_neq_implies_less)
    next
      case ne: False
      show ?thesis
      proof (cases "valid (g_memoryTable s j) \<and> free (g_memoryTable s j)
                 \<and> startIndex (g_memoryTable s i) + length_e (g_memoryTable s i) div 4
                   = startIndex (g_memoryTable s j)")
        case True
        with inb ne run have "gc_inner i (j + 1) (gc_merge i j s) True = (s', False)"
          by (subst (asm) gc_inner.simps) simp
        from "1.IH"(2)[OF inb ne True this] show ?thesis by simp
      next
        case False
        with inb ne run have "gc_inner i (j + 1) s c = (s', False)"
          by (subst (asm) gc_inner.simps) auto
        from "1.IH"(3)[OF inb ne False this] have
          a: "s' = s" "\<not> c" "valid (g_memoryTable s i) \<and> free (g_memoryTable s i) \<longrightarrow>
            (\<forall>b. j + 1 \<le> b \<and> b < g_memoryTableEntries s \<and> b < GLUS_MEMORY_TABLE_ENTRIES
               \<longrightarrow> \<not> adjacent_free s i b)" by auto
        have "\<not> adjacent_free s i j" using False by (auto simp: adjacent_free_def)
        with a show ?thesis
          by (metis Suc_eq_plus1 Suc_leI le_neq_implies_less)
      qed
    qed
  qed
qed

lemma gc_outer_quiet:
  assumes "gc_outer i s c = (s', False)"
  shows "s' = s \<and> \<not> c
     \<and> (\<forall>a b. i \<le> a \<and> a < g_memoryTableEntries s \<and> a < GLUS_MEMORY_TABLE_ENTRIES
             \<and> b < g_memoryTableEntries s \<and> b < GLUS_MEMORY_TABLE_ENTRIES
             \<longrightarrow> \<not> adjacent_free s a b)"
  using assms
proof (induction i s c arbitrary: s' rule: gc_outer.induct)
  case (1 i s c)
  note run = "1.prems"
  show ?case
  proof (cases "i < g_memoryTableEntries s \<and> i < GLUS_MEMORY_TABLE_ENTRIES")
    case False
    with run show ?thesis by (subst (asm) gc_outer.simps) auto
  next
    case inb: True
    show ?thesis
    proof (cases "valid (g_memoryTable s i) \<and> free (g_memoryTable s i)")
      case True
      obtain s1 c1 where in1: "gc_inner i 0 s c = (s1, c1)" by (cases "gc_inner i 0 s c")
      with inb True run have r: "gc_outer (i + 1) s1 c1 = (s', False)"
        by (subst (asm) gc_outer.simps) simp
      from "1.IH"(1)[OF inb True in1[symmetric] r] have
        o: "s' = s1" "\<not> c1" "\<forall>a b. i + 1 \<le> a \<and> a < g_memoryTableEntries s1
             \<and> a < GLUS_MEMORY_TABLE_ENTRIES
             \<and> b < g_memoryTableEntries s1 \<and> b < GLUS_MEMORY_TABLE_ENTRIES
             \<longrightarrow> \<not> adjacent_free s1 a b" by auto
      from gc_inner_quiet[of i 0 s c s1] in1 o(2) True have
        n: "s1 = s" "\<not> c" "\<forall>b. b < g_memoryTableEntries s \<and> b < GLUS_MEMORY_TABLE_ENTRIES
               \<longrightarrow> \<not> adjacent_free s i b" by auto
      from o n show ?thesis
        by (metis Suc_eq_plus1 Suc_leI le_neq_implies_less)
    next
      case False
      with inb run have "gc_outer (i + 1) s c = (s', False)"
        by (subst (asm) gc_outer.simps) auto
      from "1.IH"(2)[OF inb False this] have
        o: "s' = s" "\<not> c" "\<forall>a b. i + 1 \<le> a \<and> a < g_memoryTableEntries s
             \<and> a < GLUS_MEMORY_TABLE_ENTRIES
             \<and> b < g_memoryTableEntries s \<and> b < GLUS_MEMORY_TABLE_ENTRIES
             \<longrightarrow> \<not> adjacent_free s a b" by auto
      have "\<not> adjacent_free s i b" for b using False by (auto simp: adjacent_free_def)
      with o show ?thesis
        by (metis Suc_eq_plus1 Suc_leI le_neq_implies_less)
    qed
  qed
qed

text \<open>The last pass of a run of the collector is a pass that merges nothing.\<close>

lemma glusGarbageCollect_last_pass:
  "gc_outer 0 (glusGarbageCollect s) False = (glusGarbageCollect s, False)"
proof (induction s rule: glusGarbageCollect.induct)
  case (1 s)
  obtain s1 c1 where p: "gc_outer 0 s False = (s1, c1)" by (cases "gc_outer 0 s False")
  show ?case
  proof (cases c1)
    case True
    then have "glusGarbageCollect s = glusGarbageCollect s1"
      using p by (subst glusGarbageCollect.simps) simp
    with "1.IH"[OF p[symmetric] True] show ?thesis by simp
  next
    case False
    then have g: "glusGarbageCollect s = s1"
      using p by (subst glusGarbageCollect.simps) simp
    from gc_outer_quiet[of 0 s False s1] p False have "s1 = s" by simp
    with g p False show ?thesis by simp
  qed
qed

text \<open>
  C7: a run of \<open>glusGarbageCollect\<close> ends in a fixed point.  In the state it returns no
  two distinct Free entries among the activated slots are adjacent (no \<open>a\<close>, \<open>b\<close> with
  \<open>a.startIndex + a.length / 4 == b.startIndex\<close>), and a second run returns that state
  unchanged.
\<close>

theorem C7_collect_fixed_point:
  "(\<forall>a b. a < g_memoryTableEntries (glusGarbageCollect s) \<and> a < GLUS_MEMORY_TABLE_ENTRIES
          \<and> b < g_memoryTableEntries (glusGarbageCollect s) \<and> b < GLUS_MEMORY_TABLE_ENTRIES
          \<longrightarrow> \<not> adjacent_free (glusGarbageCollect s) a b)
   \<and> glusGarbageCollect (glusGarbageCollect s) = glusGarbageCollect s"
proof
  from gc_outer_quiet[OF glusGarbageCollect_last_pass[of s]]
  show "\<forall>a b. a < g_memoryTableEntries (glusGarbageCollect s) \<and> a < GLUS_MEMORY_TABLE_ENTRIES
          \<and> b < g_memoryTableEntries (glusGarbageCollect s) \<and> b < GLUS_MEMORY_TABLE_ENTRIES
          \<longrightarrow> \<not> adjacent_free (glusGarbageCollect s) a b" by simp
next
  show "glusGarbageCollect (glusGarbageCollect s) = glusGarbageCollect s"
    by (subst glusGarbageCollect.simps) (simp add: glusGarbageCollect_last_pass)
qed

subsection \<open>Two runs from the initial state\<close>

text \<open>
  The arena is at address 4096 and holds zeros.  First run: \<open>glusMalloc(8)\<close>, which returns
  4096; \<open>glusFree(4096)\<close>; \<open>glusMalloc(4)\<close>.
\<close>

definition entry :: "bool \<Rightarrow> bool \<Rightarrow> size_t \<Rightarrow> size_t \<Rightarrow> ptr \<Rightarrow> GLUSmemoryTable" where
  "entry v f st len p = \<lparr>valid = v, free = f, startIndex = st, length_e = len, pointer = p\<rparr>"

definition table_of :: "GLUSmemoryTable list \<Rightarrow> state" where
  "table_of es = \<lparr>g_memory = (\<lambda>_. 0),
                  g_memoryTable = (\<lambda>i. if i < length es then es ! i else zero_entry),
                  g_memoryTableEntries = length es\<rparr>"

definition run1_alloc8 :: state where
  "run1_alloc8 = table_of [entry True False 0 8 4096, entry True True 2 4194296 0]"

definition run1_freed :: state where
  "run1_freed = table_of [entry True True 0 8 4096, entry True True 2 4194296 0]"

definition run1_alloc4 :: state where
  "run1_alloc4 = table_of [entry True False 0 4 4096, entry True True 1 4 0]"

definition run1_merged :: state where
  "run1_merged = table_of [entry True True 0 4194304 4096, entry False True 2 4194296 0]"

lemmas run_simps = eval_simps table_of_def entry_def fun_eq_iff nth_Cons'

lemma table_of_initial: "initial_state 4096 = table_of [entry True True 0 4194304 4096]"
  by (simp add: run_simps)

lemma run1_step1: "glusMalloc 8 (initial_state 4096) = Inr (4096, run1_alloc8)"
  by (simp add: run_simps run1_alloc8_def)

lemma run1_step2: "glusFree 4096 run1_alloc8 = run1_freed"
  by (simp add: run_simps run1_alloc8_def run1_freed_def)

lemma run1_step3: "glusMalloc 4 run1_freed = Inr (4096, run1_alloc4)"
  by (simp add: run_simps run1_freed_def run1_alloc4_def)

lemma run1_collect: "glusGarbageCollect run1_freed = run1_merged"
  by (simp add: run_simps run1_freed_def run1_merged_def)

lemma run1_reachable: "reachable run1_alloc8" "reachable run1_freed" "reachable run1_alloc4"
proof -
  show 1: "reachable run1_alloc8"
    using reachable_glusMalloc[OF reachable.init run1_step1] .
  show 2: "reachable run1_freed"
    using reachable.release[OF 1, of 4096] by (simp add: run1_step2)
  show "reachable run1_alloc4"
    using reachable_glusMalloc[OF 2 run1_step3] .
qed

text \<open>
  Second run: \<open>glusMalloc(4)\<close>, which returns 4096; \<open>glusMalloc(4194296)\<close>, which returns
  null; \<open>glusFree(4096)\<close>.
\<close>

definition run2_alloc4 :: state where
  "run2_alloc4 = table_of [entry True False 0 4 4096, entry True True 1 4194300 0]"

definition run2_alloc_rest :: state where
  "run2_alloc_rest = table_of [entry True False 0 4 4096, entry True False 1 4194296 0,
                               entry True True 1048575 4 0]"

definition run2_freed :: state where
  "run2_freed = table_of [entry True True 0 4 4096, entry True False 1 4194296 0,
                          entry True True 1048575 4 0]"

lemma run2_step1: "glusMalloc 4 (initial_state 4096) = Inr (4096, run2_alloc4)"
  by (simp add: run_simps run2_alloc4_def)

lemma run2_step2: "glusMalloc 4194296 run2_alloc4 = Inr (0, run2_alloc_rest)"
  by (simp add: run_simps run2_alloc4_def run2_alloc_rest_def)

lemma run2_step3: "glusFree 4096 run2_alloc_rest = run2_freed"
  by (simp add: run_simps run2_alloc_rest_def run2_freed_def)

lemma run2_reachable: "reachable run2_alloc4" "reachable run2_alloc_rest" "reachable run2_freed"
proof -
  show 1: "reachable run2_alloc4"
    using reachable_glusMalloc[OF reachable.init run2_step1] .
  show 2: "reachable run2_alloc_rest"
    using reachable_glusMalloc[OF 1 run2_step2] .
  show "reachable run2_freed"
    using reachable.release[OF 2, of 4096] by (simp add: run2_step3)
qed

text \<open>
  On a table that violates the invariant the comparison of the source, \<open>length >= size\<close>,
  is not the comparison with the rounded size: a Free entry of 5 bytes, which no run
  produces, is granted for a request of 5 bytes although the rounded size is 8.
\<close>

lemma unrounded_test_outside_invariant:
  "\<not> table_inv (table_of [entry True True 0 5 4096])
   \<and> \<not> reachable (table_of [entry True True 0 5 4096])
   \<and> first_fit (table_of [entry True True 0 5 4096]) (roundedSize (unat (5 :: size_t))) = None
   \<and> glusInternalMalloc 5 (table_of [entry True True 0 5 4096])
       = Inr (4096, table_of [entry True False 0 8 4096,
                              entry True True 2 18446744073709551613 0])"
proof -
  let ?s = "table_of [entry True True 0 5 4096]"
  have i: "\<not> table_inv ?s"
    by (simp add: table_inv_def table_of_def entry_def entry_ok_def)
  then have "\<not> reachable ?s" using reachable_inv by blast
  moreover note i
  moreover have "first_fit ?s (roundedSize (unat (5 :: size_t))) = None"
    by (simp add: first_fit_def first_fit_from_def fits_def table_of_def entry_def
          roundedSize_def GLUS_MEMORY_TABLE_ENTRIES_def)
  moreover have "glusInternalMalloc 5 ?s
       = Inr (4096, table_of [entry True False 0 8 4096,
                              entry True True 2 18446744073709551613 0])"
    by (simp add: run_simps)
  ultimately show ?thesis by blast
qed

text \<open>
  The scan at a table whose first fit is not entry 0: after \<open>glusMalloc(4)\<close> entry 0 is
  Allocated, and a request of 6 bytes, rounded to 8, is granted from entry 1.
\<close>

theorem C3_first_fit_rounded_witness:
  "table_inv run2_alloc4
   \<and> \<not> fits run2_alloc4 (roundedSize (unat (6 :: size_t))) 0
   \<and> first_fit run2_alloc4 (roundedSize (unat (6 :: size_t))) = Some 1
   \<and> glusInternalMalloc 6 run2_alloc4
        = Inr (0, table_of [entry True False 0 4 4096, entry True False 1 8 0,
                            entry True True 3 4194292 0])
   \<and> (\<exists>s'. glusInternalMalloc 6 run2_alloc4 = Inr (pointer (g_memoryTable run2_alloc4 1), s')
         \<and> table_inv s'
         \<and> valid (g_memoryTable s' 1) \<and> \<not> free (g_memoryTable s' 1)
         \<and> 8 \<le> unat (length_e (g_memoryTable s' 1)))"
proof -
  have i: "table_inv run2_alloc4" by (rule reachable_inv[OF run2_reachable(1)])
  have u: "[0 ..< 2] = [0, 1]" by (simp add: upt_rec)
  have r: "roundedSize (unat (6 :: size_t)) = 8" by (simp add: roundedSize_def)
  have n: "\<not> fits run2_alloc4 8 0"
    by (simp add: fits_def run2_alloc4_def table_of_def entry_def)
  have f: "first_fit run2_alloc4 8 = Some 1"
    by (simp add: first_fit_def first_fit_from_def fits_def run2_alloc4_def table_of_def
          entry_def GLUS_MEMORY_TABLE_ENTRIES_def u)
  have e: "glusInternalMalloc 6 run2_alloc4
        = Inr (0, table_of [entry True False 0 4 4096, entry True False 1 8 0,
                            entry True True 3 4194292 0])"
    by (simp add: run_simps run2_alloc4_def)
  note t = C3_first_fit_rounded[OF i, of 6, unfolded r f option.case]
  then obtain s' where
    "glusInternalMalloc 6 run2_alloc4 = Inr (pointer (g_memoryTable run2_alloc4 1), s')"
    "table_inv s'" "valid (g_memoryTable s' 1)" "\<not> free (g_memoryTable s' 1)"
    "8 \<le> unat (length_e (g_memoryTable s' 1))" by blast
  with i n f e show ?thesis unfolding r by blast
qed

subsection \<open>A run with a store into the arena\<close>

text \<open>
  Third run: \<open>glusMalloc(8)\<close>, which returns 4096; the caller stores 5000 into the second
  word of its block; \<open>glusFree(4096)\<close>; \<open>glusMalloc(4)\<close>, which returns 4096;
  \<open>glusMalloc(4)\<close>, which returns 5000.
\<close>

definition arena_5000 :: "nat \<Rightarrow> uint32_t" where
  "arena_5000 = (\<lambda>i. if i = 1 then 5000 else 0)"

definition run3_stored :: state where
  "run3_stored = run1_alloc8\<lparr>g_memory := arena_5000\<rparr>"

definition run3_freed :: state where
  "run3_freed = (table_of [entry True True 0 8 4096, entry True True 2 4194296 0])
                  \<lparr>g_memory := arena_5000\<rparr>"

definition run3_alloc4 :: state where
  "run3_alloc4 = (table_of [entry True False 0 4 4096, entry True True 1 4 5000])
                   \<lparr>g_memory := arena_5000\<rparr>"

definition run3_alloc4_again :: state where
  "run3_alloc4_again = (table_of [entry True False 0 4 4096, entry True False 1 4 5000,
                                  entry True True 2 0 0])\<lparr>g_memory := arena_5000\<rparr>"

definition run3_released :: state where
  "run3_released = (table_of [entry True False 0 4 4096, entry True True 1 4 5000,
                              entry True True 2 0 0])\<lparr>g_memory := arena_5000\<rparr>"

lemma run3_step2: "glusFree 4096 run3_stored = run3_freed"
  by (simp add: run_simps run3_stored_def run1_alloc8_def run3_freed_def)

lemma run3_step3: "glusMalloc 4 run3_freed = Inr (4096, run3_alloc4)"
  by (simp add: run_simps run3_freed_def run3_alloc4_def arena_5000_def)

lemma run3_step4: "glusMalloc 4 run3_alloc4 = Inr (5000, run3_alloc4_again)"
  by (simp add: run_simps run3_alloc4_def run3_alloc4_again_def arena_5000_def)

lemma run3_step5: "glusFree 5000 run3_alloc4_again = run3_released"
  by (simp add: run_simps run3_alloc4_again_def run3_released_def)

lemma run3_reachable: "reachable run3_alloc4_again"
proof -
  have 1: "reachable run3_stored"
    unfolding run3_stored_def by (rule reachable.store[OF run1_reachable(1)])
  have 2: "reachable run3_freed"
    using reachable.release[OF 1, of 4096] by (simp add: run3_step2)
  have 3: "reachable run3_alloc4"
    by (rule reachable_glusMalloc[OF 2 run3_step3])
  show ?thesis
    by (rule reachable_glusMalloc[OF 3 run3_step4])
qed

text \<open>
  C6: \<open>glusFree\<close> with a pointer that is not the address of the start of any tracked block
  leaves the table unchanged.  The code matches the pointer against the \<open>pointer\<close> field
  of the entries, and that field holds what the arena contained at \<open>startIndex\<close>, not the
  address of the block.  At the end of the third run the three tracked blocks start at
  the words 0, 1 and 2, at the addresses 4096, 4100 and 4104; \<open>glusFree(5000)\<close> matches the
  field of entry 1 and turns that Allocated block Free.
\<close>

theorem C6_free_foreign_pointer:
  "reachable run3_alloc4_again
   \<and> g_memoryTableEntries run3_alloc4_again = 3
   \<and> valid (g_memoryTable run3_alloc4_again 1) \<and> \<not> free (g_memoryTable run3_alloc4_again 1)
   \<and> (5000 :: ptr) \<noteq> 0
   \<and> 5000 \<noteq> 4096 + 4 * startIndex (g_memoryTable run3_alloc4_again 0)
   \<and> 5000 \<noteq> 4096 + 4 * startIndex (g_memoryTable run3_alloc4_again 1)
   \<and> 5000 \<noteq> 4096 + 4 * startIndex (g_memoryTable run3_alloc4_again 2)
   \<and> glusFree 5000 run3_alloc4_again = run3_released
   \<and> free (g_memoryTable run3_released 1)
   \<and> run3_released \<noteq> run3_alloc4_again"
proof -
  have v: "\<not> free (g_memoryTable run3_alloc4_again 1)" "free (g_memoryTable run3_released 1)"
    by (simp_all add: run3_alloc4_again_def run3_released_def table_of_def entry_def)
  then have "run3_released \<noteq> run3_alloc4_again" by auto
  with v run3_reachable run3_step5 show ?thesis
    by (simp add: run3_alloc4_again_def table_of_def entry_def)
qed

text \<open>The fixed point at the state of the first run that has two adjacent Free entries.\<close>

theorem C7_collect_fixed_point_witness:
  "adjacent_free run1_freed 0 1
   \<and> g_memoryTableEntries (glusGarbageCollect run1_freed) = 2
   \<and> \<not> adjacent_free (glusGarbageCollect run1_freed) 0 1
   \<and> glusGarbageCollect (glusGarbageCollect run1_freed) = glusGarbageCollect run1_freed"
proof -
  have a: "adjacent_free run1_freed 0 1"
    by (simp add: adjacent_free_def run1_freed_def table_of_def entry_def)
  have n: "g_memoryTableEntries (glusGarbageCollect run1_freed) = 2"
    by (simp add: run1_collect run1_merged_def table_of_def)
  from C7_collect_fixed_point[of run1_freed] a n show ?thesis
    by (simp add: GLUS_MEMORY_TABLE_ENTRIES_def)
qed

subsection \<open>Rounding and overflow\<close>

lemma align4_mod: "unat (align4 sz) = roundedSize (unat sz) mod 18446744073709551616"
proof (cases "sz mod 4 = 0")
  case True
  then have "unat sz mod 4 = 0" by (simp add: mod4_zero_iff)
  then have "roundedSize (unat sz) = unat sz" unfolding roundedSize_def by presburger
  with True unat_size_t_less[of sz] show ?thesis by (simp add: align4_def)
next
  case False
  then have r: "unat sz mod 4 \<noteq> 0" by (simp add: mod4_zero_iff)
  then have e: "roundedSize (unat sz) = (unat sz div 4 + 1) * 4"
    unfolding roundedSize_def by presburger
  have 1: "unat ((sz div 4 + 1) * 4) = unat (sz div 4 + 1) * unat (4 :: size_t) mod 2 ^ LENGTH(64)"
    by (rule unat_word_ariths(2))
  have 2: "unat (sz div 4 + 1) = (unat (sz div 4) + unat (1 :: size_t)) mod 2 ^ LENGTH(64)"
    by (rule unat_word_ariths(1))
  have "unat ((sz div 4 + 1) * 4)
          = (unat sz div 4 + 1) mod 18446744073709551616 * 4 mod 18446744073709551616"
    unfolding 1 2 by (simp add: unat_div4)
  also have "\<dots> = (unat sz div 4 + 1) * 4 mod 18446744073709551616"
    by (rule mod_mult_left_eq)
  finally have "unat ((sz div 4 + 1) * 4) = (unat sz div 4 + 1) * 4 mod 18446744073709551616" .
  with False e show ?thesis by (simp only: align4_def if_False)
qed

lemma align4_detects:
  "(align4 sz < sz) = (18446744073709551616 \<le> roundedSize (unat sz))"
proof
  assume "align4 sz < sz"
  then show "18446744073709551616 \<le> roundedSize (unat sz)" by (rule align4_wraps)
next
  assume o: "18446744073709551616 \<le> roundedSize (unat sz)"
  have "roundedSize (unat sz) \<le> unat sz + 3" unfolding roundedSize_def by presburger
  with unat_size_t_less[of sz] have u: "roundedSize (unat sz) < 18446744073709551616 + 3" by simp
  obtain q where q: "roundedSize (unat sz) = 4 * q"
    using roundedSize_mod4[of "unat sz"] by (auto simp: mod_eq_0_iff_dvd)
  from o u have "q = 4611686018427387904" unfolding q by linarith
  then have "roundedSize (unat sz) = 18446744073709551616" using q by simp
  then have "unat (align4 sz) = 0" by (simp add: align4_mod)
  moreover have "unat sz \<noteq> 0" using o by (auto simp: roundedSize_def)
  ultimately show "align4 sz < sz" by (simp add: word_less_nat_alt)
qed

lemma grant_granted:
  assumes i: "i < g_memoryTableEntries s" "valid (g_memoryTable s i)"
    and fit: "sz \<le> length_e (g_memoryTable s i)" "sz \<le> a"
    and g: "grant a i s = Inr (p, s')"
    and k: "free (g_memoryTable s k)" "\<not> free (g_memoryTable s' k)"
  shows "k = i \<and> sz \<le> length_e (g_memoryTable s' k)"
proof -
  note op = other_index_props(1)[OF i]
  from g k op fit show ?thesis
    unfolding grant_unfold glusInitMemoryTableEntry_def
    by (auto split: if_splits)
qed

lemma malloc_loop_granted:
  assumes "malloc_loop sz a j s = Inr (p, s')" "sz \<le> a"
    "free (g_memoryTable s k)" "\<not> free (g_memoryTable s' k)"
  shows "sz \<le> length_e (g_memoryTable s' k)"
  using assms
proof (induction sz a j s rule: malloc_loop.induct)
  case (1 sz a j s)
  note run = "1.prems"(1)
  show ?case
  proof (cases "j < g_memoryTableEntries s \<and> j < GLUS_MEMORY_TABLE_ENTRIES")
    case False
    with run have "s' = s" by (subst (asm) malloc_loop.simps) auto
    with "1.prems" show ?thesis by simp
  next
    case inb: True
    show ?thesis
    proof (cases "valid (g_memoryTable s j) \<and> free (g_memoryTable s j)
                   \<and> length_e (g_memoryTable s j) \<ge> sz")
      case True
      with inb run have g: "grant a j s = Inr (p, s')"
        by (subst (asm) malloc_loop.simps) simp
      from grant_granted[OF _ _ _ "1.prems"(2) g "1.prems"(3,4)] inb True
      show ?thesis by blast
    next
      case False
      with inb run have "malloc_loop sz a (j + 1) s = Inr (p, s')"
        by (subst (asm) malloc_loop.simps) auto
      from "1.IH"[OF inb False this "1.prems"(2-4)] show ?thesis .
    qed
  qed
qed

text \<open>
  C9, as the code has it: \<open>glusInternalMalloc\<close> rounds the size up to the next multiple
  of 4 (\<open>align4\<close> is \<open>roundedSize\<close> whenever that fits \<open>size_t\<close>).  If the rounding overflows
  \<open>size_t\<close>, \<open>glusInternalMalloc\<close> returns null and the state it was given, and \<open>glusMalloc\<close>
  returns null and the state the collector makes of the one it was given.  An entry that
  \<open>glusInternalMalloc\<close> turns from free to allocated has a length of at least the requested
  size afterwards.
\<close>

theorem C9_rounding_amended:
  "(roundedSize (unat sz) < 18446744073709551616 \<longrightarrow>
       unat (align4 sz) = roundedSize (unat sz) \<and> unat (align4 sz) mod 4 = 0
       \<and> unat sz \<le> unat (align4 sz) \<and> unat (align4 sz) < unat sz + 4)
   \<and> (18446744073709551616 \<le> roundedSize (unat sz) \<longrightarrow>
       glusInternalMalloc sz s = Inr (0, s)
       \<and> glusMalloc sz s = Inr (0, glusGarbageCollect s))
   \<and> (glusInternalMalloc sz s = Inr (p, s') \<and> free (g_memoryTable s k)
        \<and> \<not> free (g_memoryTable s' k) \<longrightarrow> sz \<le> length_e (g_memoryTable s' k))"
proof -
  have A: "roundedSize (unat sz) < 18446744073709551616 \<longrightarrow>
       unat (align4 sz) = roundedSize (unat sz) \<and> unat (align4 sz) mod 4 = 0
       \<and> unat sz \<le> unat (align4 sz) \<and> unat (align4 sz) < unat sz + 4"
  proof
    assume "roundedSize (unat sz) < 18446744073709551616"
    then have "unat (align4 sz) = roundedSize (unat sz)" by (rule align4_exact)
    moreover have "roundedSize (unat sz) < unat sz + 4" unfolding roundedSize_def by presburger
    ultimately show "unat (align4 sz) = roundedSize (unat sz) \<and> unat (align4 sz) mod 4 = 0
       \<and> unat sz \<le> unat (align4 sz) \<and> unat (align4 sz) < unat sz + 4"
      using roundedSize_mod4[of "unat sz"] roundedSize_ge[of "unat sz"] by simp
  qed
  have B: "18446744073709551616 \<le> roundedSize (unat sz) \<longrightarrow>
       glusInternalMalloc sz s = Inr (0, s)
       \<and> glusMalloc sz s = Inr (0, glusGarbageCollect s)"
  proof
    assume "18446744073709551616 \<le> roundedSize (unat sz)"
    then have o: "align4 sz < sz" by (simp only: align4_detects)
    then have i: "glusInternalMalloc sz s' = Inr (0, s')" for s'
      by (simp add: glusInternalMalloc_def)
    from o have "sz \<noteq> 0" by auto
    then show "glusInternalMalloc sz s = Inr (0, s)
       \<and> glusMalloc sz s = Inr (0, glusGarbageCollect s)"
      by (simp add: glusMalloc_def i)
  qed
  have C: "glusInternalMalloc sz s = Inr (p, s') \<and> free (g_memoryTable s k)
        \<and> \<not> free (g_memoryTable s' k) \<longrightarrow> sz \<le> length_e (g_memoryTable s' k)"
  proof
    assume a: "glusInternalMalloc sz s = Inr (p, s') \<and> free (g_memoryTable s k)
        \<and> \<not> free (g_memoryTable s' k)"
    show "sz \<le> length_e (g_memoryTable s' k)"
    proof (cases "align4 sz < sz")
      case True
      with a show ?thesis by (auto simp: glusInternalMalloc_def)
    next
      case False
      with a have "malloc_loop sz (align4 sz) 0 s = Inr (p, s')" "sz \<le> align4 sz"
        by (simp_all add: glusInternalMalloc_def)
      from malloc_loop_granted[OF this] a show ?thesis by simp
    qed
  qed
  show ?thesis by (rule conjI[OF A conjI[OF B C]])
qed

theorem C9_rounding_amended_witness:
  "roundedSize (unat (5 :: size_t)) < 18446744073709551616
   \<and> unat (align4 5) = 8
   \<and> 18446744073709551616 \<le> roundedSize (unat (18446744073709551615 :: size_t))
   \<and> glusInternalMalloc 18446744073709551615 run1_freed = Inr (0, run1_freed)
   \<and> glusMalloc 18446744073709551615 run1_freed = Inr (0, glusGarbageCollect run1_freed)
   \<and> glusInternalMalloc 5 (initial_state 4096) = Inr (4096, run1_alloc8)
   \<and> free (g_memoryTable (initial_state 4096) 0) \<and> \<not> free (g_memoryTable run1_alloc8 0)
   \<and> (5 :: size_t) \<le> length_e (g_memoryTable run1_alloc8 0)"
proof -
  have r: "roundedSize (unat (5 :: size_t)) = 8"
    "roundedSize (unat (18446744073709551615 :: size_t)) = 18446744073709551616"
    by (simp_all add: roundedSize_def)
  have g: "glusInternalMalloc 5 (initial_state 4096) = Inr (4096, run1_alloc8)"
    by (simp add: run_simps run1_alloc8_def)
  have f: "free (g_memoryTable (initial_state 4096) 0)" "\<not> free (g_memoryTable run1_alloc8 0)"
    by (simp_all add: initial_state_def run1_alloc8_def table_of_def entry_def)
  from C9_rounding_amended[of 5 "initial_state 4096" 4096 run1_alloc8 0]
       C9_rounding_amended[of 18446744073709551615 run1_freed 0 run1_freed 0] r g f
  show ?thesis by simp
qed

text \<open>
  With an overflowing size \<open>glusMalloc\<close> does modify the state: after the failed first
  attempt it runs the collector, which here merges the two Free entries.
\<close>

theorem C9_overflow_counterexample:
  "reachable run1_freed
   \<and> align4 18446744073709551615 < (18446744073709551615 :: size_t)
   \<and> glusMalloc 18446744073709551615 run1_freed = Inr (0, run1_merged)
   \<and> valid (g_memoryTable run1_freed 1) \<and> \<not> valid (g_memoryTable run1_merged 1)
   \<and> run1_merged \<noteq> run1_freed"
proof -
  have o: "align4 18446744073709551615 < (18446744073709551615 :: size_t)"
    by (simp add: align4_def)
  then have i: "glusInternalMalloc 18446744073709551615 s = Inr (0, s)" for s
    by (simp add: glusInternalMalloc_def)
  have m: "glusMalloc 18446744073709551615 run1_freed = Inr (0, run1_merged)"
    by (simp add: glusMalloc_def i run1_collect)
  have v: "valid (g_memoryTable run1_freed 1)" "\<not> valid (g_memoryTable run1_merged 1)"
    by (simp_all add: run1_freed_def run1_merged_def table_of_def entry_def)
  then have "run1_merged \<noteq> run1_freed" by auto
  with o m v run1_reachable(2) show ?thesis by simp
qed

text \<open>
  C2: the address of a block is the arena's address plus \<open>4 * startIndex\<close>.  The code
  stores \<open>(void*)g_memory[startIndex]\<close>, the content of the arena at \<open>startIndex\<close>, in
  every entry that \<open>glusInitMemoryTableEntry\<close> writes.  In the second run the entry 1
  that \<open>glusMalloc(4)\<close> creates starts at word 1 and records the pointer 0, not
  \<open>4096 + 4 * 1\<close>; the next \<open>glusMalloc\<close> grants that entry and returns null.
\<close>

theorem C2_pointer_read_from_arena:
  "glusMalloc 4 (initial_state 4096) = Inr (4096, run2_alloc4)
   \<and> valid (g_memoryTable run2_alloc4 1)
   \<and> startIndex (g_memoryTable run2_alloc4 1) = 1
   \<and> pointer (g_memoryTable run2_alloc4 1) = ucast (g_memory run2_alloc4 1)
   \<and> pointer (g_memoryTable run2_alloc4 1) = 0
   \<and> pointer (g_memoryTable run2_alloc4 1) \<noteq> 4096 + 4 * startIndex (g_memoryTable run2_alloc4 1)
   \<and> glusMalloc 4194296 run2_alloc4 = Inr (0, run2_alloc_rest)
   \<and> \<not> free (g_memoryTable run2_alloc_rest 1)"
  using run2_step1 run2_step2
  by (simp add: run2_alloc4_def run2_alloc_rest_def table_of_def entry_def)

subsection \<open>Coverage of the arena\<close>

text \<open>The words of the arena that the Free and Allocated entries among the activated
  slots govern.\<close>

definition covered :: "state \<Rightarrow> nat set" where
  "covered s = \<Union> (set (map (\<lambda>i. blk_range (g_memoryTable s i))
     (filter (\<lambda>i. valid (g_memoryTable s i))
        [0 ..< min (g_memoryTableEntries s) GLUS_MEMORY_TABLE_ENTRIES])))"

text \<open>What does hold in every reachable state: the valid entries among the activated
  slots govern pairwise disjoint words, all within the first \<open>GLUS_MEMORY_SIZE / 4\<close> words.\<close>

lemma reachable_blocks_disjoint:
  assumes "reachable s" "i < g_memoryTableEntries s" "j < g_memoryTableEntries s" "i \<noteq> j"
    "valid (g_memoryTable s i)" "valid (g_memoryTable s j)"
  shows "blk_range (g_memoryTable s i) \<inter> blk_range (g_memoryTable s j) = {}"
  using reachable_inv[OF assms(1)] assms(2-) unfolding table_inv_def by blast

lemma reachable_covered_bound:
  assumes "reachable s"
  shows "covered s \<subseteq> {0 ..< GLUS_MEMORY_SIZE div 4}"
proof
  fix w assume "w \<in> covered s"
  then obtain i where i: "i < g_memoryTableEntries s" "valid (g_memoryTable s i)"
    "w \<in> blk_range (g_memoryTable s i)"
    by (auto simp: covered_def)
  with reachable_inv[OF assms] have "entry_ok (g_memoryTable s i)"
    by (simp add: table_inv_def)
  with i(3) show "w \<in> {0 ..< GLUS_MEMORY_SIZE div 4}"
    by (auto simp: entry_ok_def blk_range_def)
qed

text \<open>
  C5: the Free and Allocated entries tile the arena \<open>[0, GLUS_MEMORY_SIZE)\<close>.  The code
  does not keep this.  The initial entry has length \<open>GLUS_MEMORY_SIZE\<close>, a number of words
  used as a number of bytes, so it covers the first quarter of the arena only.  And in
  the first run \<open>glusMalloc(4)\<close> finds no reusable entry, writes the remainder to entry
  \<open>tableIndex + 1 = 1\<close> and so overwrites the Free entry that governed the words from 2 on:
  afterwards the entries cover the words 0 and 1 only.
\<close>

theorem C5_tiling_lost:
  "GLUS_MEMORY_SIZE = 4194304
   \<and> covered (initial_state 4096) = {0 ..< 1048576}
   \<and> glusMalloc 8 (initial_state 4096) = Inr (4096, run1_alloc8)
   \<and> covered run1_alloc8 = {0 ..< 1048576}
   \<and> glusFree 4096 run1_alloc8 = run1_freed
   \<and> glusMalloc 4 run1_freed = Inr (4096, run1_alloc4)
   \<and> covered run1_alloc4 = {0 ..< 2}"
proof -
  have u: "[0 ..< 2] = [0, 1]" by (simp add: upt_rec)
  have 1: "covered (initial_state 4096) = {0 ..< 1048576}"
    by (simp add: covered_def initial_state_def blk_range_def GLUS_MEMORY_SIZE_def
          GLUS_MEMORY_TABLE_ENTRIES_def)
  have 2: "covered run1_alloc8 = {0 ..< 1048576}"
    by (auto simp: covered_def run1_alloc8_def table_of_def entry_def blk_range_def
          GLUS_MEMORY_TABLE_ENTRIES_def u)
  have 3: "covered run1_alloc4 = {0 ..< 2}"
    by (auto simp: covered_def run1_alloc4_def table_of_def entry_def blk_range_def
          GLUS_MEMORY_TABLE_ENTRIES_def u)
  from 1 2 3 run1_step1 run1_step2 run1_step3 show ?thesis
    by (simp add: GLUS_MEMORY_SIZE_def)
qed

subsection \<open>A table at capacity\<close>

text \<open>
  All 1024 entries are activated and valid: entry 0 is Free with 8 bytes at word 0,
  the entries 1 to 1022 are Allocated with 4 bytes each, entry 1023 is the Free rest.
  \<open>glusMalloc(8)\<close>, 511 times \<open>glusMalloc(4)\<close> and \<open>glusFree(4096)\<close> lead to it from the
  initial state, as shown below.
\<close>

definition full_table :: state where
  "full_table =
     \<lparr>g_memory = (\<lambda>_. 0),
      g_memoryTable = (\<lambda>i. if i = 0 then entry True True 0 8 4096
                           else if i < 1023 then entry True False (of_nat i + 1) 4 0
                           else if i = 1023 then entry True True 1024 4190208 0
                           else zero_entry),
      g_memoryTableEntries = 1024\<rparr>"

definition full_table_after :: state where
  "full_table_after =
     full_table\<lparr>g_memoryTable := (g_memoryTable full_table)
        (1 := entry True True 1 4 0, 0 := entry True False 0 4 4096)\<rparr>"

lemma full_table_no_unused: "glusFindMemoryTableEntry full_table = None"
  unfolding glusFindMemoryTableEntry_def
  by (rule find_loop_all_valid) (simp add: full_table_def entry_def GLUS_MEMORY_TABLE_ENTRIES_def)

lemma full_table_malloc: "glusInternalMalloc 4 full_table = Inr (4096, full_table_after)"
proof -
  have "malloc_loop 4 4 0 full_table = grant 4 0 full_table"
    by (subst malloc_loop.simps)
       (simp add: full_table_def entry_def GLUS_MEMORY_TABLE_ENTRIES_def)
  moreover have "grant 4 0 full_table = Inr (4096, full_table_after)"
    by (simp add: grant_def full_table_no_unused glusInitMemoryTableEntry_def Let_def
          GLUS_MEMORY_TABLE_ENTRIES_def GLUS_MEMORY_SIZE_def)
       (simp add: full_table_def full_table_after_def entry_def fun_eq_iff)
  ultimately show ?thesis by (simp add: glusInternalMalloc_def align4_def)
qed

text \<open>A pass of the collector over a table without adjacent Free entries changes nothing.\<close>

lemma gc_inner_no_adjacent:
  assumes "\<And>b. b < g_memoryTableEntries s \<Longrightarrow> \<not> adjacent_free s i b"
    "valid (g_memoryTable s i)" "free (g_memoryTable s i)"
  shows "gc_inner i j s c = (s, c)"
  using assms
proof (induction i j s c rule: gc_inner.induct)
  case (1 i j s c)
  show ?case
  proof (cases "j < g_memoryTableEntries s \<and> j < GLUS_MEMORY_TABLE_ENTRIES")
    case False
    then show ?thesis by (subst gc_inner.simps) auto
  next
    case inb: True
    show ?thesis
    proof (cases "j = i")
      case True
      with inb have "gc_inner i j s c = gc_inner i (j + 1) s c"
        by (subst gc_inner.simps) simp
      with "1.IH"(1)[OF inb True "1.prems"] show ?thesis by simp
    next
      case ne: False
      from "1.prems"(1)[of j] inb ne "1.prems"(2,3)
      have no: "\<not> (valid (g_memoryTable s j) \<and> free (g_memoryTable s j)
                 \<and> startIndex (g_memoryTable s i) + length_e (g_memoryTable s i) div 4
                   = startIndex (g_memoryTable s j))"
        by (auto simp: adjacent_free_def)
      with inb ne have "gc_inner i j s c = gc_inner i (j + 1) s c"
        by (subst gc_inner.simps) auto
      with "1.IH"(3)[OF inb ne no "1.prems"] show ?thesis by simp
    qed
  qed
qed

lemma gc_outer_no_adjacent:
  assumes "\<And>a b. a < g_memoryTableEntries s \<Longrightarrow> b < g_memoryTableEntries s \<Longrightarrow>
             \<not> adjacent_free s a b"
  shows "gc_outer i s c = (s, c)"
  using assms
proof (induction i s c rule: gc_outer.induct)
  case (1 i s c)
  show ?case
  proof (cases "i < g_memoryTableEntries s \<and> i < GLUS_MEMORY_TABLE_ENTRIES")
    case False
    then show ?thesis by (subst gc_outer.simps) auto
  next
    case inb: True
    show ?thesis
    proof (cases "valid (g_memoryTable s i) \<and> free (g_memoryTable s i)")
      case True
      have in1: "gc_inner i 0 s c = (s, c)"
        by (rule gc_inner_no_adjacent) (use True inb "1.prems" in auto)
      with inb True have "gc_outer i s c = gc_outer (i + 1) s c"
        by (subst gc_outer.simps) simp
      with "1.IH"(1)[OF inb True in1[symmetric] "1.prems"] show ?thesis by simp
    next
      case False
      with inb have "gc_outer i s c = gc_outer (i + 1) s c"
        by (subst gc_outer.simps) auto
      with "1.IH"(2)[OF inb False "1.prems"] show ?thesis by simp
    qed
  qed
qed

lemma glusGarbageCollect_no_adjacent:
  assumes "\<And>a b. a < g_memoryTableEntries s \<Longrightarrow> b < g_memoryTableEntries s \<Longrightarrow>
             \<not> adjacent_free s a b"
  shows "glusGarbageCollect s = s"
  by (subst glusGarbageCollect.simps) (simp add: gc_outer_no_adjacent[OF assms])

text \<open>
  The state after \<open>glusMalloc(8)\<close> and \<open>m\<close> grants of 4 bytes: entry 0 has the 8 bytes,
  the entries 1 to \<open>m\<close> have 4 bytes each, entry \<open>m + 1\<close> is the Free rest.
\<close>

definition chain :: "nat \<Rightarrow> state" where
  "chain m =
     \<lparr>g_memory = (\<lambda>_. 0),
      g_memoryTable = (\<lambda>i. if i = 0 then entry True False 0 8 4096
                           else if i \<le> m then entry True False (of_nat (i + 1)) 4 0
                           else if i = m + 1
                             then entry True True (of_nat (m + 2)) (of_nat (4194296 - 4 * m)) 0
                           else zero_entry),
      g_memoryTableEntries = m + 2\<rparr>"

lemma chain_0: "chain 0 = run1_alloc8"
  by (simp add: chain_def run1_alloc8_def table_of_def entry_def fun_eq_iff nth_Cons')

lemma find_upt_first:
  assumes "j < n" "P j" "\<And>i. i < j \<Longrightarrow> \<not> P i"
  shows "find P [0 ..< n] = Some j"
  using assms by (auto simp: find_Some_iff intro!: exI[of _ j])

lemma unat_of_nat_size_t: "r < 18446744073709551616 \<Longrightarrow> unat (of_nat r :: size_t) = r"
  by (rule of_nat_inverse[OF refl]) simp

lemma chain_rest_length:
  assumes "m \<le> 1021"
  shows "unat (of_nat (4194296 - 4 * m) :: size_t) = 4194296 - 4 * m"
  by (rule unat_of_nat_size_t) simp

lemma chain_first_fit:
  assumes "m \<le> 1021"
  shows "first_fit (chain m) 4 = Some (m + 1)"
  unfolding first_fit_def first_fit_from_def
proof (rule find_upt_first)
  show "m + 1 < min (g_memoryTableEntries (chain m)) GLUS_MEMORY_TABLE_ENTRIES"
    using assms by (simp add: chain_def GLUS_MEMORY_TABLE_ENTRIES_def)
  show "fits (chain m) 4 (m + 1)"
    using assms chain_rest_length[OF assms] by (simp add: fits_def chain_def entry_def)
  show "\<not> fits (chain m) 4 i" if "i < m + 1" for i
    using that by (simp add: fits_def chain_def entry_def)
qed

lemma chain_no_unused: "find_loop (chain m) 0 = None"
  by (rule find_loop_all_valid) (simp add: chain_def entry_def)

lemma chain_grant:
  assumes "m \<le> 1021"
  shows "grant 4 (m + 1) (chain m) = Inr (0, chain (m + 1))"
proof -
  have o: "other_index (m + 1) (chain m) = m + 2"
    by (simp add: other_index_def glusFindMemoryTableEntry_def chain_no_unused)
  have st: "startIndex (g_memoryTable (chain m) (m + 1)) + 4 div 4 = (of_nat (m + 3) :: size_t)"
    by (simp add: chain_def entry_def)
  have "unat (of_nat (m + 3) :: size_t) = m + 3"
    by (rule unat_of_nat_size_t) (use assms in simp)
  then have inb: "\<not> GLUS_MEMORY_SIZE \<le> unat (of_nat (m + 3) :: size_t)"
    using assms by (simp add: GLUS_MEMORY_SIZE_def)
  have len: "length_e (g_memoryTable (chain m) (m + 1)) - 4
               = (of_nat (4194296 - 4 * (m + 1)) :: size_t)"
    using assms by (simp add: chain_def entry_def of_nat_diff)
  have lt: "m + 2 < GLUS_MEMORY_TABLE_ENTRIES"
    using assms by (simp add: GLUS_MEMORY_TABLE_ENTRIES_def)
  have i: "glusInitMemoryTableEntry (m + 2) (of_nat (m + 3))
              (of_nat (4194296 - 4 * (m + 1))) (chain m)
           = Inr (True, (chain m)\<lparr>g_memoryTable := (g_memoryTable (chain m))(m + 2 :=
                entry True True (of_nat (m + 3)) (of_nat (4194296 - 4 * (m + 1))) 0),
              g_memoryTableEntries := m + 3\<rparr>)"
    using lt inb unfolding glusInitMemoryTableEntry_def
    by (simp add: entry_def) (simp add: chain_def)
  show ?thesis
    unfolding grant_unfold o st len i
    by (simp add: chain_def entry_def fun_eq_iff)
qed

lemma chain_allocate:
  assumes "m \<le> 1021" "table_inv (chain m)"
  shows "glusInternalMalloc 4 (chain m) = Inr (0, chain (m + 1))"
proof -
  have "roundedSize (unat (4 :: size_t)) = 4" by (simp add: roundedSize_def)
  with glusInternalMalloc_first_fit[OF assms(2), of 4] chain_first_fit[OF assms(1)]
  have "glusInternalMalloc 4 (chain m) = grant (align4 4) (m + 1) (chain m)" by simp
  then show ?thesis using chain_grant[OF assms(1)] by (simp add: align4_def)
qed

lemma chain_one_free:
  "valid (g_memoryTable (chain m) a) \<and> free (g_memoryTable (chain m) a) \<Longrightarrow> a = m + 1"
  by (auto simp: chain_def entry_def zero_entry_def split: if_splits)

lemma chain_collect: "glusGarbageCollect (chain m) = chain m"
proof (rule glusGarbageCollect_no_adjacent)
  fix a b
  show "\<not> adjacent_free (chain m) a b"
    using chain_one_free[of m a] chain_one_free[of m b] by (auto simp: adjacent_free_def)
qed

lemma chain_malloc:
  assumes "m \<le> 1020" "reachable (chain m)"
  shows "glusMalloc 4 (chain m) = Inr (0, chain (m + 2))" "reachable (chain (m + 2))"
proof -
  have 1: "glusInternalMalloc 4 (chain m) = Inr (0, chain (m + 1))"
    using assms by (intro chain_allocate reachable_inv) simp_all
  then have r1: "reachable (chain (m + 1))"
    using reachable.allocate[OF assms(2), of 4] by simp
  have inv1: "table_inv (chain (m + 1))" by (rule reachable_inv[OF r1])
  have "m + 1 \<le> 1021" using assms(1) by simp
  from chain_allocate[OF this inv1]
  have 2: "glusInternalMalloc 4 (chain (m + 1)) = Inr (0, chain (m + 2))"
    by (simp only: add.assoc one_add_one)
  from 1 2 have s: "glusInternalMalloc 4 (chain m) = Inr (0, chain (Suc m))"
    "glusInternalMalloc 4 (chain (Suc m)) = Inr (0, chain (Suc (Suc m)))" by simp_all
  show m: "glusMalloc 4 (chain m) = Inr (0, chain (m + 2))"
    by (simp add: glusMalloc_def s chain_collect)
  show "reachable (chain (m + 2))"
    by (rule reachable_glusMalloc[OF assms(2) m])
qed

lemma chain_reachable: "k \<le> 511 \<Longrightarrow> reachable (chain (2 * k))"
proof (induction k)
  case 0
  show ?case using run1_reachable(1) by (simp add: chain_0)
next
  case (Suc k)
  then have "reachable (chain (2 * k))" "2 * k \<le> 1020" by simp_all
  from chain_malloc(2)[OF this(2) this(1)] show ?case by simp
qed

lemma full_table_chain: "glusFree 4096 (chain 1022) = full_table"
  by (subst glusFree_def, subst free_loop.simps)
     (simp add: chain_def full_table_def entry_def fun_eq_iff GLUS_MEMORY_TABLE_ENTRIES_def)

lemma full_table_reachable: "reachable full_table"
proof -
  have "reachable (chain (2 * 511))" by (rule chain_reachable) simp
  then have "reachable (chain 1022)" by simp
  from reachable.release[OF this, of 4096] show ?thesis by (simp add: full_table_chain)
qed

text \<open>
  C4: with no Unused entry and the table at capacity, the chosen block is granted in
  full and no other entry is modified.  The code does this only when the chosen entry is
  the last one of the table: the fallback slot is \<open>tableIndex + 1\<close>, and
  \<open>glusInitMemoryTableEntry\<close> refuses it only when it is \<open>GLUS_MEMORY_TABLE_ENTRIES\<close>.  On
  the full table, \<open>glusInternalMalloc(4)\<close> chooses entry 0 (8 bytes), splits it, and
  overwrites entry 1, an Allocated block, with the Free remainder.
\<close>

theorem C4_full_table_split:
  "reachable full_table
   \<and> g_memoryTableEntries full_table = GLUS_MEMORY_TABLE_ENTRIES
   \<and> glusFindMemoryTableEntry full_table = None
   \<and> g_memoryTable full_table 0 = entry True True 0 8 4096
   \<and> g_memoryTable full_table 1 = entry True False 2 4 0
   \<and> glusInternalMalloc 4 full_table = Inr (4096, full_table_after)
   \<and> g_memoryTable full_table_after 0 = entry True False 0 4 4096
   \<and> g_memoryTable full_table_after 1 = entry True True 1 4 0"
  using full_table_reachable full_table_no_unused full_table_malloc
  by (simp add: full_table_def full_table_after_def GLUS_MEMORY_TABLE_ENTRIES_def)

subsection \<open>What \<open>glusMalloc\<close> grants\<close>

text \<open>The bytes of all Free entries among the activated slots.\<close>

definition total_free :: "state \<Rightarrow> nat" where
  "total_free s = sum_list (map (\<lambda>i. unat (length_e (g_memoryTable s i)))
     (filter (\<lambda>i. valid (g_memoryTable s i) \<and> free (g_memoryTable s i))
        [0 ..< min (g_memoryTableEntries s) GLUS_MEMORY_TABLE_ENTRIES]))"

text \<open>Some Free entry among the activated slots has at least \<open>sz\<close> bytes.\<close>

definition some_block_fits :: "state \<Rightarrow> size_t \<Rightarrow> bool" where
  "some_block_fits s sz \<longleftrightarrow>
     (\<exists>i. i < g_memoryTableEntries s \<and> i < GLUS_MEMORY_TABLE_ENTRIES
        \<and> valid (g_memoryTable s i) \<and> free (g_memoryTable s i)
        \<and> sz \<le> length_e (g_memoryTable s i))"

text \<open>
  Entry \<open>k\<close> is the block handed out with pointer \<open>p\<close>: it is Allocated, records \<open>p\<close>, has
  at least \<open>sz\<close> bytes, and its words belong to no other Allocated entry.
\<close>

definition granted :: "state \<Rightarrow> ptr \<Rightarrow> size_t \<Rightarrow> nat \<Rightarrow> bool" where
  "granted s p sz k \<longleftrightarrow>
     k < g_memoryTableEntries s
     \<and> valid (g_memoryTable s k) \<and> \<not> free (g_memoryTable s k)
     \<and> pointer (g_memoryTable s k) = p
     \<and> sz \<le> length_e (g_memoryTable s k)
     \<and> (\<forall>j. j < g_memoryTableEntries s \<and> j \<noteq> k
            \<and> valid (g_memoryTable s j) \<and> \<not> free (g_memoryTable s j)
          \<longrightarrow> blk_range (g_memoryTable s k) \<inter> blk_range (g_memoryTable s j) = {})"

lemma grantedI:
  assumes "table_inv s" "k < g_memoryTableEntries s"
    "valid (g_memoryTable s k)" "\<not> free (g_memoryTable s k)"
    "pointer (g_memoryTable s k) = p" "sz \<le> length_e (g_memoryTable s k)"
  shows "granted s p sz k"
  using assms unfolding granted_def table_inv_def by blast

lemma some_block_fits_first_fit:
  assumes inv: "table_inv s" and f: "some_block_fits s sz"
  shows "first_fit s (roundedSize (unat sz)) \<noteq> None"
proof
  assume n: "first_fit s (roundedSize (unat sz)) = None"
  from f obtain i where i: "i < g_memoryTableEntries s" "i < GLUS_MEMORY_TABLE_ENTRIES"
    "valid (g_memoryTable s i) \<and> free (g_memoryTable s i) \<and> sz \<le> length_e (g_memoryTable s i)"
    unfolding some_block_fits_def by blast
  from i(3) have "fits s (roundedSize (unat sz)) i"
    by (simp only: fits_iff[OF inv i(1)])
  moreover from n have "\<not> fits s (roundedSize (unat sz)) i"
    unfolding first_fit_def by (rule first_fit_from_None) (use i in simp_all)
  ultimately show False by simp
qed

text \<open>A call of \<open>glusInternalMalloc\<close> that finds a block, on a state with the invariant.\<close>

lemma glusInternalMalloc_grants:
  assumes inv: "table_inv s" and f: "first_fit s (roundedSize (unat sz)) \<noteq> None"
  shows "\<exists>p s' k. glusInternalMalloc sz s = Inr (p, s') \<and> table_inv s' \<and> granted s' p sz k"
proof -
  from glusInternalMalloc_inv[OF inv, of sz] f obtain i s' where
    g: "glusInternalMalloc sz s = Inr (pointer (g_memoryTable s i), s')"
    and inv': "table_inv s'"
    and i: "g_memoryTableEntries s \<le> g_memoryTableEntries s'" "i < g_memoryTableEntries s"
      "valid (g_memoryTable s' i)" "\<not> free (g_memoryTable s' i)"
      "pointer (g_memoryTable s' i) = pointer (g_memoryTable s i)"
      "sz \<le> length_e (g_memoryTable s' i)"
    by auto
  have "granted s' (pointer (g_memoryTable s i)) sz i"
    by (rule grantedI[OF inv' _ i(3,4,5,6)]) (use i(1,2) in simp)
  with g inv' show ?thesis by blast
qed

lemma glusMalloc_grants:
  assumes inv: "table_inv s" and sz: "sz \<noteq> 0"
    and fit: "some_block_fits s sz \<or> some_block_fits (glusGarbageCollect s) sz"
  shows "\<exists>p s' k. glusMalloc sz s = Inr (p, s') \<and> granted s' p sz k"
proof (cases "first_fit s (roundedSize (unat sz))")
  case None
  with glusInternalMalloc_inv[OF inv, of sz]
  have 1: "glusInternalMalloc sz s = Inr (0, s)" by auto
  then have m: "glusMalloc sz s = glusInternalMalloc sz (glusGarbageCollect s)"
    using sz by (simp add: glusMalloc_def)
  from None some_block_fits_first_fit[OF inv] fit
  have "some_block_fits (glusGarbageCollect s) sz" by blast
  moreover have invG: "table_inv (glusGarbageCollect s)"
    using glusGarbageCollect_inv[OF inv] by simp
  ultimately have "first_fit (glusGarbageCollect s) (roundedSize (unat sz)) \<noteq> None"
    by (simp add: some_block_fits_first_fit)
  from glusInternalMalloc_grants[OF invG this] m show ?thesis by auto
next
  case (Some i)
  then have "first_fit s (roundedSize (unat sz)) \<noteq> None" by simp
  from glusInternalMalloc_grants[OF inv this] obtain p1 s1 k where
    1: "glusInternalMalloc sz s = Inr (p1, s1)" and inv1: "table_inv s1"
    and g1: "granted s1 p1 sz k" by blast
  show ?thesis
  proof (cases "p1 = 0")
    case False
    with 1 sz have "glusMalloc sz s = Inr (p1, s1)" by (simp add: glusMalloc_def)
    with g1 show ?thesis by blast
  next
    case True
    let ?G = "glusGarbageCollect s1"
    from True 1 sz have m: "glusMalloc sz s = glusInternalMalloc sz ?G"
      by (simp add: glusMalloc_def)
    from glusGarbageCollect_inv[OF inv1] have invG: "table_inv ?G" and fr: "gc_frame s1 ?G"
      by simp_all
    show ?thesis
    proof (cases "first_fit ?G (roundedSize (unat sz))")
      case None
      with glusInternalMalloc_inv[OF invG, of sz]
      have 2: "glusInternalMalloc sz ?G = Inr (0, ?G)" by auto
      from g1 fr have k: "k < g_memoryTableEntries ?G" "g_memoryTable ?G k = g_memoryTable s1 k"
        unfolding granted_def gc_frame_def by auto
      have "granted ?G 0 sz k"
        by (rule grantedI[OF invG k(1)]) (use g1 True k(2) in \<open>simp_all add: granted_def\<close>)
      with m 2 show ?thesis by auto
    next
      case (Some i2)
      then have "first_fit ?G (roundedSize (unat sz)) \<noteq> None" by simp
      from glusInternalMalloc_grants[OF invG this] m show ?thesis by auto
    qed
  qed
qed

text \<open>
  C1, as the code has it by design: the request has to fit a single Free entry, at the
  call or after the collector has merged adjacent Free entries; the total of the Free
  entries is not enough.  Then \<open>glusMalloc\<close> returns the pointer recorded in an entry that
  is Allocated afterwards, with at least the requested number of bytes, and the words of
  that entry belong to no other Allocated entry.  What the recorded pointer is, and so
  whether it is null, is not part of this statement.
\<close>

theorem C1_malloc_single_block_amended:
  assumes "reachable s" "sz \<noteq> 0"
    and "some_block_fits s sz \<or> some_block_fits (glusGarbageCollect s) sz"
  shows "\<exists>p s' k. glusMalloc sz s = Inr (p, s') \<and> granted s' p sz k"
  using glusMalloc_grants[OF reachable_inv[OF assms(1)] assms(2,3)] .

theorem C1_malloc_single_block_amended_witness:
  "reachable run1_freed \<and> (4 :: size_t) \<noteq> 0 \<and> some_block_fits run1_freed 4
   \<and> glusMalloc 4 run1_freed = Inr (4096, run1_alloc4) \<and> granted run1_alloc4 4096 4 0"
proof -
  have f: "some_block_fits run1_freed 4"
    unfolding some_block_fits_def
    by (rule exI[of _ 0])
       (simp add: run1_freed_def table_of_def entry_def GLUS_MEMORY_TABLE_ENTRIES_def)
  from C1_malloc_single_block_amended[OF run1_reachable(2), of 4] f
  obtain p s' k where "glusMalloc 4 run1_freed = Inr (p, s')" "granted s' p 4 k" by auto
  with run1_step3 have g: "granted run1_alloc4 4096 4 k" by simp
  then have "k = 0"
    by (cases "k = 0"; cases "k = 1")
       (auto simp: granted_def run1_alloc4_def table_of_def entry_def)
  with g f run1_reachable(2) run1_step3 show ?thesis by simp
qed

text \<open>
  The claim as stated fails for a fragmented table.  After the second run 8 bytes are
  free, 4 at word 0 and 4 at word 1048575, the block between them is Allocated, and
  \<open>glusMalloc(8)\<close> returns null.
\<close>

theorem C1_fragmentation_counterexample:
  "reachable run2_freed \<and> total_free run2_freed = 8 \<and> (0 :: size_t) < 8
   \<and> unat (8 :: size_t) \<le> total_free run2_freed
   \<and> glusMalloc 8 run2_freed = Inr (0, run2_freed)"
proof -
  have u: "[0 ..< 3] = [0, 1, 2]" by (simp add: upt_rec)
  have t: "total_free run2_freed = 8"
    by (simp add: total_free_def run2_freed_def table_of_def entry_def
          GLUS_MEMORY_TABLE_ENTRIES_def u)
  have m: "glusMalloc 8 run2_freed = Inr (0, run2_freed)"
    by (simp add: run_simps run2_freed_def)
  from t m run2_reachable(3) show ?thesis by simp
qed

end
